theory Spec2Isabelle
  imports Complex_Main "HOL-Library.Multiset"
begin

section \<open>CalShift: a shallow embedding of \<open>CalShift.ipynb\<close>\<close>

text \<open>
  The source is one Python class, \<open>CalShift\<close>, over PyTorch. The embedding works in exact
  arithmetic: a tensor element is a real number or NaN. Errors raised by Python or by the
  tensor library are values of \<open>error\<close>, and every operation that can raise returns
  \<open>error + 'a\<close>.
\<close>

subsection \<open>Scalars\<close>

text \<open>
  \<open>None\<close> is NaN. The only division by zero the class can reach from finite encoder
  outputs is \<open>0 / 0\<close> (a vector of Euclidean norm zero has only zero components; the mean
  of no terms divides the empty sum by zero), which is NaN. A nonzero numerator over zero
  would be an infinity; no path of the class produces one in exact arithmetic, and
  \<open>fdiv\<close> gives NaN for every zero divisor.
\<close>

type_synonym scalar = "real option"

abbreviation NaN :: scalar where
  "NaN \<equiv> None"

fun fadd :: "scalar \<Rightarrow> scalar \<Rightarrow> scalar" where
  "fadd (Some x) (Some y) = Some (x + y)"
| "fadd _ _ = NaN"

fun fsub :: "scalar \<Rightarrow> scalar \<Rightarrow> scalar" where
  "fsub (Some x) (Some y) = Some (x - y)"
| "fsub _ _ = NaN"

fun fmul :: "scalar \<Rightarrow> scalar \<Rightarrow> scalar" where
  "fmul (Some x) (Some y) = Some (x * y)"
| "fmul _ _ = NaN"

fun fdiv :: "scalar \<Rightarrow> scalar \<Rightarrow> scalar" where
  "fdiv (Some x) (Some y) = (if y = 0 then NaN else Some (x / y))"
| "fdiv _ _ = NaN"

fun fneg :: "scalar \<Rightarrow> scalar" where
  "fneg (Some x) = Some (- x)"
| "fneg None = NaN"

fun fexp :: "scalar \<Rightarrow> scalar" where
  "fexp (Some x) = Some (exp x)"
| "fexp None = NaN"

text \<open>\<open>torch.log\<close> of a value that is not positive is \<open>-inf\<close> or NaN; softmax
  probabilities are positive, so the branch is not reached by the class.\<close>

fun flog :: "scalar \<Rightarrow> scalar" where
  "flog (Some x) = (if 0 < x then Some (ln x) else NaN)"
| "flog None = NaN"

fun fsqrt :: "scalar \<Rightarrow> scalar" where
  "fsqrt (Some x) = (if 0 \<le> x then Some (sqrt x) else NaN)"
| "fsqrt None = NaN"

text \<open>A comparison with NaN is false.\<close>

fun fgt :: "scalar \<Rightarrow> scalar \<Rightarrow> bool" where
  "fgt (Some x) (Some y) = (y < x)"
| "fgt _ _ = False"

text \<open>\<open>.sum()\<close>: the sum of no element is 0.\<close>

definition fsum :: "scalar list \<Rightarrow> scalar" where
  "fsum xs = fold (\<lambda>x acc. fadd acc x) xs (Some 0)"

subsection \<open>Tensors and errors\<close>

datatype error = AttributeError | IndexError | ValueError | RuntimeError | ZeroDivisionError

text \<open>
  A two-dimensional tensor carries its shape, so that a tensor with no row still has a
  number of columns; \<open>elem T i j\<close> is read for \<open>i < rows T\<close> and \<open>j < cols T\<close> only.
  A one-dimensional tensor (the labels, a row) is a list.
\<close>

record 'a tensor2 =
  rows :: nat
  cols :: nat
  elem :: "nat \<Rightarrow> nat \<Rightarrow> 'a"

definition row :: "'a tensor2 \<Rightarrow> nat \<Rightarrow> 'a list" where
  "row T i = map (elem T i) [0..<cols T]"

definition transpose2 :: "'a tensor2 \<Rightarrow> 'a tensor2" where
  "transpose2 T = \<lparr>rows = cols T, cols = rows T, elem = (\<lambda>i j. elem T j i)\<rparr>"

text \<open>\<open>labels[i]\<close> for a Python integer \<open>i \<ge> 0\<close>.\<close>

definition getitem :: "'a list \<Rightarrow> nat \<Rightarrow> error + 'a" where
  "getitem xs i = (if i < length xs then Inr (xs ! i) else Inl IndexError)"

text \<open>\<open>probs[i, l]\<close> for a row \<open>i \<ge> 0\<close> and an integer label \<open>l\<close>: a negative index
  counts from the end, an index outside \<open>[-cols, cols)\<close> raises.\<close>

definition index2 :: "'a tensor2 \<Rightarrow> nat \<Rightarrow> int \<Rightarrow> error + 'a" where
  "index2 T i l =
     (let c = int (cols T); j = (if l < 0 then l + c else l)
      in if i < rows T \<and> 0 \<le> j \<and> j < c then Inr (elem T i (nat j)) else Inl IndexError)"

subsection \<open>Library functions: softmax, cross-entropy, norm\<close>

text \<open>\<open>F.softmax(logits, dim=-1)\<close>: each row is divided by the sum of its exponentials;
  a NaN in a row makes the whole row NaN.\<close>

definition softmax_row :: "scalar list \<Rightarrow> scalar list" where
  "softmax_row xs = (let z = fsum (map fexp xs) in map (\<lambda>x. fdiv (fexp x) z) xs)"

definition softmax :: "scalar tensor2 \<Rightarrow> scalar tensor2" where
  "softmax T = \<lparr>rows = rows T, cols = cols T, elem = (\<lambda>i j. softmax_row (row T i) ! j)\<rparr>"

definition log_softmax_row :: "scalar list \<Rightarrow> scalar list" where
  "log_softmax_row xs = (let z = flog (fsum (map fexp xs)) in map (\<lambda>x. fsub x z) xs)"

text \<open>
  \<open>F.cross_entropy(input, target)\<close> with its defaults (\<open>reduction='mean'\<close>,
  \<open>ignore_index=-100\<close>): the batch sizes must agree; a target is the ignored index or a
  class in \<open>[0, cols)\<close>; the result is the mean, over the targets that are not ignored,
  of the negative log-softmax of the target class (NaN when there is none).
\<close>

definition ignore_index :: int where
  "ignore_index = - 100"

definition valid_target :: "nat \<Rightarrow> int \<Rightarrow> bool" where
  "valid_target c t = (t = ignore_index \<or> (0 \<le> t \<and> t < int c))"

definition cross_entropy :: "scalar tensor2 \<Rightarrow> int list \<Rightarrow> error + scalar" where
  "cross_entropy input target =
     (if rows input \<noteq> length target then Inl ValueError
      else if \<not> list_all (valid_target (cols input)) target then Inl IndexError
      else
        let kept = filter (\<lambda>i. target ! i \<noteq> ignore_index) [0..<rows input];
            nll = map (\<lambda>i. fneg (log_softmax_row (row input i) ! nat (target ! i))) kept
        in Inr (fdiv (fsum nll) (Some (real (length kept)))))"

text \<open>\<open>x / x.norm(dim=-1, keepdim=True)\<close>: each row divided by its Euclidean norm,
  with no guard on the norm.\<close>

definition norm_row :: "scalar list \<Rightarrow> scalar" where
  "norm_row xs = fsqrt (fsum (map (\<lambda>x. fmul x x) xs))"

definition normalize :: "real tensor2 \<Rightarrow> scalar tensor2" where
  "normalize T =
     \<lparr>rows = rows T, cols = cols T,
      elem = (\<lambda>i j. fdiv (Some (elem T i j)) (norm_row (map Some (row T i))))\<rparr>"

text \<open>\<open>a @ b\<close>: the inner dimensions must agree.\<close>

definition matmul :: "scalar tensor2 \<Rightarrow> scalar tensor2 \<Rightarrow> error + scalar tensor2" where
  "matmul A B =
     (if cols A \<noteq> rows B then Inl RuntimeError
      else Inr \<lparr>rows = rows A, cols = cols B,
                elem = (\<lambda>i j. fsum (map (\<lambda>k. fmul (elem A i k) (elem B k j)) [0..<cols A]))\<rparr>)"

definition scale :: "scalar tensor2 \<Rightarrow> scalar \<Rightarrow> scalar tensor2" where
  "scale T s = \<lparr>rows = rows T, cols = cols T, elem = (\<lambda>i j. fmul (elem T i j) s)\<rparr>"

text \<open>\<open>torch.cat\<close> of a list of flattened tensors: the list must not be empty.\<close>

definition cat :: "scalar list list \<Rightarrow> error + scalar list" where
  "cat gs = (if gs = [] then Inl RuntimeError else Inr (concat gs))"

text \<open>\<open>torch.stack\<close> of one-dimensional tensors: the list must not be empty and the
  sizes must be equal.\<close>

definition stack :: "scalar list list \<Rightarrow> error + scalar tensor2" where
  "stack gs =
     (if gs = [] then Inl RuntimeError
      else if \<not> list_all (\<lambda>g. length g = length (hd gs)) gs then Inl RuntimeError
      else Inr \<lparr>rows = length gs, cols = length (hd gs), elem = (\<lambda>i j. gs ! i ! j)\<rparr>)"

text \<open>\<open>torch.mean\<close> of a one-dimensional tensor.\<close>

definition mean :: "scalar list \<Rightarrow> scalar" where
  "mean xs = fdiv (fsum xs) (Some (real (length xs)))"

subsection \<open>The class\<close>

text \<open>
  The backbone is opaque: its parameters are seen through their \<open>requires_grad\<close> flags,
  its encoders are functions to real tensors of embeddings (one row per image or prompt).
\<close>

record ('img, 'txt) clip_model =
  requires_grad :: "bool list"
  encode_image :: "'img \<Rightarrow> real tensor2"
  encode_text :: "'txt \<Rightarrow> real tensor2"
  logit_scale :: real

record ('img, 'txt, 'pl) CalShift =
  clip_model :: "('img, 'txt) clip_model"
  lambda_fim :: real
  lambda_cmp :: real
  prompt_learner :: "'pl option"

text \<open>\<open>__init__\<close>: the loop sets \<open>requires_grad = False\<close> on every parameter of the
  backbone, which the object keeps by reference; \<open>prompt_learner\<close> is \<open>None\<close>.\<close>

definition CalShift_init ::
  "('img, 'txt) clip_model \<Rightarrow> real \<Rightarrow> real \<Rightarrow> ('img, 'txt, 'pl) CalShift" where
  "CalShift_init cm lf lc =
     \<lparr>clip_model = cm\<lparr>requires_grad := map (\<lambda>_. False) (requires_grad cm)\<rparr>,
      lambda_fim = lf, lambda_cmp = lc, prompt_learner = None\<rparr>"

text \<open>
  \<open>torch.autograd.grad(log_prob, params, ...)\<close> belongs to the autodiff engine, and the
  graph behind \<open>log_prob\<close> to the backbone: the call is a parameter of the embedding. For
  sample \<open>i\<close>, its log-probability and the prompt learner it returns the gradient
  tensors, one per parameter, each flattened, or raises.
\<close>

type_synonym 'pl autograd = "nat \<Rightarrow> scalar \<Rightarrow> 'pl \<Rightarrow> error + scalar list list"

text \<open>The loop of \<open>compute_fisher_penalty\<close>. Python evaluates \<open>probs[i, labels[i]]\<close>,
  then \<open>self.prompt_learner.parameters()\<close>, then the gradient.\<close>

fun fisher_loop ::
  "'pl autograd \<Rightarrow> 'pl option \<Rightarrow> scalar tensor2 \<Rightarrow> int list \<Rightarrow> nat list \<Rightarrow>
   scalar list list \<Rightarrow> error + scalar list list" where
  "fisher_loop ag pl probs labels [] grad_log_probs = Inr grad_log_probs"
| "fisher_loop ag pl probs labels (i # is) grad_log_probs =
     (case getitem labels i of Inl e \<Rightarrow> Inl e | Inr l \<Rightarrow>
      case index2 probs i l of Inl e \<Rightarrow> Inl e | Inr p \<Rightarrow>
      let log_prob = flog p in
      case pl of None \<Rightarrow> Inl AttributeError | Some params \<Rightarrow>
      case ag i log_prob params of Inl e \<Rightarrow> Inl e | Inr grad \<Rightarrow>
      case cat grad of Inl e \<Rightarrow> Inl e | Inr g \<Rightarrow>
      fisher_loop ag pl probs labels is (grad_log_probs @ [g]))"

definition compute_fisher_penalty ::
  "'pl autograd \<Rightarrow> ('img, 'txt, 'pl) CalShift \<Rightarrow> scalar tensor2 \<Rightarrow> int list \<Rightarrow>
   error + scalar" where
  "compute_fisher_penalty ag self logits labels =
     (let probs = softmax logits; batch_size = rows logits in
      case fisher_loop ag (prompt_learner self) probs labels [0..<batch_size] [] of
        Inl e \<Rightarrow> Inl e
      | Inr grad_log_probs \<Rightarrow>
          (case stack grad_log_probs of
             Inl e \<Rightarrow> Inl e
           | Inr G \<Rightarrow>
               Inr (mean (map (\<lambda>i. let n = norm_row (row G i) in fmul n n) [0..<rows G]))))"

text \<open>The loop of \<open>compute_cmp\<close>: the mask selects the classes whose probability is
  greater than the true one and whose index differs from the label as it is written.\<close>

fun cmp_loop :: "scalar tensor2 \<Rightarrow> int list \<Rightarrow> nat list \<Rightarrow> scalar \<Rightarrow> error + scalar" where
  "cmp_loop probs labels [] cmp_loss = Inr cmp_loss"
| "cmp_loop probs labels (i # is) cmp_loss =
     (case getitem labels i of Inl e \<Rightarrow> Inl e | Inr l \<Rightarrow>
      case index2 probs i l of Inl e \<Rightarrow> Inl e | Inr true_prob \<Rightarrow>
      let mask = (\<lambda>j. fgt (elem probs i j) true_prob \<and> int j \<noteq> l);
          excess_prob = fsum (map (elem probs i) (filter mask [0..<cols probs]))
      in cmp_loop probs labels is
           (if fgt excess_prob (Some 0) then fadd cmp_loss (fdiv true_prob excess_prob)
            else cmp_loss))"

text \<open>With no row, \<open>cmp_loss\<close> is still the Python float \<open>0.0\<close> and \<open>batch_size\<close> the
  Python integer 0: the division raises.\<close>

definition compute_cmp :: "scalar tensor2 \<Rightarrow> int list \<Rightarrow> error + scalar" where
  "compute_cmp logits labels =
     (let probs = softmax logits; batch_size = rows logits in
      case cmp_loop probs labels [0..<batch_size] (Some 0) of
        Inl e \<Rightarrow> Inl e
      | Inr cmp_loss \<Rightarrow>
          if batch_size = 0 then Inl ZeroDivisionError
          else Inr (fdiv cmp_loss (Some (real batch_size))))"

record report =
  loss :: scalar
  clip_loss :: scalar
  fim_penalty :: scalar
  cmp_penalty :: scalar
  logits :: "scalar tensor2"

text \<open>Line 80 of the source: the logits of a batch.\<close>

definition compute_logits ::
  "('img, 'txt) clip_model \<Rightarrow> 'img \<Rightarrow> 'txt \<Rightarrow> error + scalar tensor2" where
  "compute_logits cm images text_tokens =
     (let image_features = encode_image cm images;
          text_features = encode_text cm text_tokens;
          image_features = normalize image_features;
          text_features = normalize text_features
      in case matmul image_features (transpose2 text_features) of
           Inl e \<Rightarrow> Inl e
         | Inr sim \<Rightarrow> Inr (scale sim (Some (exp (logit_scale cm)))))"

text \<open>Line 83 of the source: the symmetric contrastive loss.\<close>

definition contrastive_loss :: "scalar tensor2 \<Rightarrow> int list \<Rightarrow> error + scalar" where
  "contrastive_loss lg labels =
     (case cross_entropy lg labels of Inl e \<Rightarrow> Inl e | Inr ce_rows \<Rightarrow>
      case cross_entropy (transpose2 lg) labels of Inl e \<Rightarrow> Inl e | Inr ce_cols \<Rightarrow>
      Inr (fdiv (fadd ce_rows ce_cols) (Some 2)))"

definition forward ::
  "'pl autograd \<Rightarrow> ('img, 'txt, 'pl) CalShift \<Rightarrow> 'img \<Rightarrow> 'txt \<Rightarrow> int list \<Rightarrow>
   error + report" where
  "forward ag self images text_tokens labels =
     (case compute_logits (clip_model self) images text_tokens of Inl e \<Rightarrow> Inl e | Inr lg \<Rightarrow>
      case contrastive_loss lg labels of Inl e \<Rightarrow> Inl e | Inr cl \<Rightarrow>
      case compute_fisher_penalty ag self lg labels of Inl e \<Rightarrow> Inl e | Inr fim \<Rightarrow>
      case compute_cmp lg labels of Inl e \<Rightarrow> Inl e | Inr cmp \<Rightarrow>
      let total_loss =
            fadd (fadd cl (fmul (Some (lambda_fim self)) fim))
                 (fmul (Some (lambda_cmp self)) cmp)
      in Inr \<lparr>loss = total_loss, clip_loss = cl, fim_penalty = fim, cmp_penalty = cmp,
               logits = lg\<rparr>)"

subsection \<open>The confidence-misalignment penalty as the specification words it\<close>

text \<open>
  These definitions follow the words of the specification, over real logits, and are
  compared with \<open>compute_cmp\<close> below: \<open>softmax_prob L i j\<close> is the softmax probability
  of class \<open>j\<close> in row \<open>i\<close>; a sample contributes \<open>true_prob / excess_prob\<close> when
  \<open>excess_prob\<close>, the sum of the probabilities of the other classes that strictly exceed
  \<open>true_prob\<close>, is positive, and 0 otherwise; the penalty is the batch mean.
  \<open>lift\<close> reads a real tensor as a tensor of scalars.
\<close>

definition lift :: "real tensor2 \<Rightarrow> scalar tensor2" where
  "lift T = \<lparr>rows = rows T, cols = cols T, elem = (\<lambda>i j. Some (elem T i j))\<rparr>"

definition softmax_prob :: "real tensor2 \<Rightarrow> nat \<Rightarrow> nat \<Rightarrow> real" where
  "softmax_prob L i j = exp (elem L i j) / (\<Sum>k\<leftarrow>[0..<cols L]. exp (elem L i k))"

definition cmp_term_spec :: "real tensor2 \<Rightarrow> nat \<Rightarrow> nat \<Rightarrow> real" where
  "cmp_term_spec L i c =
     (let true_prob = softmax_prob L i c;
          excess_prob = (\<Sum>j\<leftarrow>filter (\<lambda>j. j \<noteq> c \<and> true_prob < softmax_prob L i j) [0..<cols L].
                           softmax_prob L i j)
      in if 0 < excess_prob then true_prob / excess_prob else 0)"

definition cmp_spec :: "real tensor2 \<Rightarrow> int list \<Rightarrow> real" where
  "cmp_spec L labels =
     (\<Sum>i\<leftarrow>[0..<rows L]. cmp_term_spec L i (nat (labels ! i))) / real (rows L)"

subsection \<open>Permuting a batch\<close>

text \<open>
  For the invariance of the contrastive loss: a permutation is the list \<open>p\<close> of the old
  indices in their new order. \<open>permute2 p T\<close> applies it to the rows and to the columns
  of a square tensor; \<open>permute_labels p labels\<close> is the corresponding label vector, which
  keeps the matching: the new image \<open>i\<close> is the old image \<open>p ! i\<close>, and its label is
  the new position of the prompt that image was matched with (a label that is no index of
  a prompt stays as it is).
\<close>

definition permute2 :: "nat list \<Rightarrow> 'a tensor2 \<Rightarrow> 'a tensor2" where
  "permute2 p T = \<lparr>rows = rows T, cols = cols T, elem = (\<lambda>i j. elem T (p ! i) (p ! j))\<rparr>"

definition position :: "nat list \<Rightarrow> nat \<Rightarrow> nat" where
  "position p k = length (takeWhile (\<lambda>x. x \<noteq> k) p)"

definition relabel :: "nat list \<Rightarrow> int \<Rightarrow> int" where
  "relabel p l = (if 0 \<le> l \<and> l < int (length p) then int (position p (nat l)) else l)"

definition permute_labels :: "nat list \<Rightarrow> int list \<Rightarrow> int list" where
  "permute_labels p labels = map (\<lambda>i. relabel p (labels ! i)) p"

subsection \<open>Example objects\<close>

text \<open>
  A backbone whose encoders return \<open>n\<close> embeddings of dimension 1, all equal to 1, with
  logit scale 0 and two parameters that track gradients; every logit of its batches is 1.
  \<open>tuned n\<close> is a CalShift over it to which a prompt learner was assigned after
  construction, and \<open>const_grad\<close> an autodiff call that returns one gradient tensor
  \<open>[3]\<close> for each sample.
\<close>

definition ones :: "nat \<Rightarrow> nat \<Rightarrow> real tensor2" where
  "ones n d = \<lparr>rows = n, cols = d, elem = (\<lambda>i j. 1)\<rparr>"

definition backbone :: "nat \<Rightarrow> (unit, unit) clip_model" where
  "backbone n = \<lparr>requires_grad = [True, True], encode_image = (\<lambda>_. ones n 1),
     encode_text = (\<lambda>_. ones n 1), logit_scale = 0\<rparr>"

definition tuned :: "nat \<Rightarrow> (unit, unit, unit) CalShift" where
  "tuned n = (CalShift_init (backbone n) (2 / 5) (2 / 5))\<lparr>prompt_learner := Some ()\<rparr>"

definition const_grad :: "unit autograd" where
  "const_grad i log_prob params = Inr [[Some 3]]"

text \<open>The example usage of the source: four images, two prompts, embeddings of
  dimension 3.\<close>

definition demo :: "(unit, unit) clip_model" where
  "demo = \<lparr>requires_grad = [True, True, True], encode_image = (\<lambda>_. ones 4 3),
     encode_text = (\<lambda>_. ones 2 3), logit_scale = 0\<rparr>"

text \<open>The two scenarios of the specification: logits \<open>[[10, 0], [0, 10]]\<close> and
  \<open>[[0, 10], [10, 0]]\<close>.\<close>

definition diag2 :: "real tensor2" where
  "diag2 = \<lparr>rows = 2, cols = 2, elem = (\<lambda>i j. if i = j then 10 else 0)\<rparr>"

definition anti2 :: "real tensor2" where
  "anti2 = \<lparr>rows = 2, cols = 2, elem = (\<lambda>i j. if i = j then 0 else 10)\<rparr>"

text \<open>A backbone whose only image embedding is the zero vector, a CalShift over it with
  a prompt learner assigned, and an autodiff call whose gradient is NaN.\<close>

definition zero_backbone :: "(unit, unit) clip_model" where
  "zero_backbone = \<lparr>requires_grad = [True], encode_image = (\<lambda>_. \<lparr>rows = 1, cols = 1, elem = (\<lambda>i j. 0)\<rparr>),
     encode_text = (\<lambda>_. ones 1 1), logit_scale = 0\<rparr>"

definition zero_tuned :: "(unit, unit, unit) CalShift" where
  "zero_tuned = (CalShift_init zero_backbone (2 / 5) (2 / 5))\<lparr>prompt_learner := Some ()\<rparr>"

definition nan_grad :: "unit autograd" where
  "nan_grad i log_prob params = Inr [[NaN]]"

text \<open>The logits \<open>[[0, 1], [2, 3]]\<close>.\<close>

definition mat2 :: "real tensor2" where
  "mat2 = \<lparr>rows = 2, cols = 2, elem = (\<lambda>i j. real (2 * i + j))\<rparr>"

section \<open>Properties\<close>

subsection \<open>Sums of scalars\<close>

lemma fold_fadd_char:
  "fold (\<lambda>x acc. fadd acc x) xs a =
     (if a = None \<or> None \<in> set xs then None else Some (the a + sum_list (map the xs)))"
proof (induction xs arbitrary: a)
  case Nil
  then show ?case by (cases a) auto
next
  case (Cons x xs)
  show ?case
  proof (cases a)
    case None
    then show ?thesis by (simp add: Cons.IH)
  next
    case (Some r)
    then show ?thesis by (cases x) (auto simp: Cons.IH)
  qed
qed

lemma fsum_char: "fsum xs = (if None \<in> set xs then None else Some (sum_list (map the xs)))"
  by (simp add: fsum_def fold_fadd_char)

lemma fsum_Some [simp]: "fsum (map Some xs) = Some (sum_list xs)"
  by (simp add: fsum_char comp_def image_iff)

lemma fsum_Nil [simp]: "fsum [] = Some 0"
  by (simp add: fsum_def)

lemma fsum_Cons [simp]: "fsum (x # xs) = fadd x (fsum xs)"
  by (cases x) (auto simp: fsum_char)

lemma fsum_mset: "mset xs = mset ys \<Longrightarrow> fsum xs = fsum ys"
proof -
  assume h: "mset xs = mset ys"
  then have s: "set xs = set ys" by (rule mset_eq_setD)
  have "mset (map the xs) = mset (map the ys)" using h by simp
  then have "sum_list (map the xs) = sum_list (map the ys)"
    by (metis sum_mset_sum_list)
  then show ?thesis using s by (simp add: fsum_char)
qed

subsection \<open>The confidence-misalignment penalty is a number\<close>




subsection \<open>Evaluating the examples\<close>

lemmas eval_defs =
  forward_def compute_logits_def tuned_def CalShift_init_def backbone_def ones_def
  normalize_def matmul_def transpose2_def scale_def row_def norm_row_def
  contrastive_loss_def cross_entropy_def valid_target_def ignore_index_def log_softmax_row_def
  compute_fisher_penalty_def softmax_def softmax_row_def getitem_def index2_def const_grad_def
  cat_def stack_def mean_def compute_cmp_def Let_def



subsection \<open>Construction and the total loss\<close>

text \<open>
  C8. After construction every parameter of the backbone has gradient tracking disabled,
  whatever it had before (the flags become as many \<open>False\<close>), and constructing a second
  objective over the backbone the first one left changes nothing in the backbone.
\<close>

theorem init_freezes_backbone:
  "requires_grad (clip_model (CalShift_init cm lf lc)) =
     replicate (length (requires_grad cm)) False \<and>
   clip_model (CalShift_init (clip_model (CalShift_init cm lf lc)) lf' lc') =
     clip_model (CalShift_init cm lf lc)"
  by (simp add: CalShift_init_def map_replicate_const)




subsection \<open>Shapes and failures\<close>

lemma cross_entropy_InrD:
  "cross_entropy T y = Inr v \<Longrightarrow> rows T = length y \<and> list_all (valid_target (cols T)) y"
  by (auto simp: cross_entropy_def split: if_splits)

lemma contrastive_loss_InrD:
  assumes "contrastive_loss lg y = Inr v"
  shows "rows lg = length y" and "cols lg = length y" and "list_all (valid_target (length y)) y"
proof -
  from assms obtain a b where a: "cross_entropy lg y = Inr a" and b: "cross_entropy (transpose2 lg) y = Inr b"
    by (auto simp: contrastive_loss_def split: sum.splits)
  from cross_entropy_InrD[OF a] show "rows lg = length y" by simp
  from cross_entropy_InrD[OF b] show c: "cols lg = length y" by (simp add: transpose2_def)
  from cross_entropy_InrD[OF a] c show "list_all (valid_target (length y)) y" by simp
qed

lemma compute_logits_shape:
  "compute_logits cm images text_tokens = Inr lg \<Longrightarrow>
     rows lg = rows (encode_image cm images) \<and> cols lg = rows (encode_text cm text_tokens)"
  by (auto simp: compute_logits_def Let_def matmul_def normalize_def transpose2_def scale_def
      split: sum.splits if_splits)

lemma compute_logits_isl:
  "isl (compute_logits cm images text_tokens) \<longleftrightarrow>
     cols (encode_image cm images) \<noteq> cols (encode_text cm text_tokens)"
  by (auto simp: compute_logits_def Let_def matmul_def normalize_def transpose2_def scale_def
      split: sum.splits if_splits)

lemma fisher_loop_None:
  "fisher_loop ag None probs labels is acc = Inr gs \<Longrightarrow> is = []"
  by (cases "is") (auto split: sum.splits)

lemma compute_fisher_penalty_None:
  "prompt_learner self = None \<Longrightarrow> isl (compute_fisher_penalty ag self lg labels)"
proof -
  assume n: "prompt_learner self = None"
  show ?thesis
  proof (cases "fisher_loop ag None (softmax lg) labels [0..<rows lg] []")
    case (Inl e)
    then show ?thesis using n by (simp add: compute_fisher_penalty_def)
  next
    case (Inr gs)
    from fisher_loop_None[OF Inr] have "[0..<rows lg] = []" .
    with Inr have "gs = []" by simp
    then show ?thesis using n Inr by (simp add: compute_fisher_penalty_def stack_def)
  qed
qed

lemma compute_fisher_penalty_AttributeError:
  assumes "prompt_learner self = None" and "0 < rows lg" and "0 < length labels"
    and "0 \<le> labels ! 0" and "labels ! 0 < int (cols lg)"
  shows "compute_fisher_penalty ag self lg labels = Inl AttributeError"
proof -
  from assms(2) have u: "[0..<rows lg] = 0 # [1..<rows lg]" by (simp add: upt_conv_Cons)
  show ?thesis using assms
    by (simp add: compute_fisher_penalty_def u getitem_def index2_def softmax_def Let_def)
qed

text \<open>
  C3. forward calls the Fisher penalty whatever \<open>lambda_fim\<close> is, and on a CalShift as
  \<open>__init__\<close> leaves it (\<open>prompt_learner\<close> is \<open>None\<close>) every call fails. When the
  logits and the contrastive loss are computed, the batch is not empty and its first label
  is not negative, the failure is the AttributeError of
  \<open>self.prompt_learner.parameters()\<close>.
\<close>

theorem forward_as_constructed_fails:
  fixes ag :: "'pl autograd" and cm :: "('img, 'txt) clip_model"
  shows "isl (forward ag (CalShift_init cm lf lc) images text_tokens labels) \<and>
   (\<forall>lg cl. compute_logits cm images text_tokens = Inr lg \<and> contrastive_loss lg labels = Inr cl \<and>
        0 < rows lg \<and> 0 \<le> labels ! 0 \<longrightarrow>
        forward ag (CalShift_init cm lf lc) images text_tokens labels = Inl AttributeError)"
proof -
  let ?self = "CalShift_init cm lf lc :: ('img, 'txt, 'pl) CalShift"
  have pl: "prompt_learner ?self = None" by (simp add: CalShift_init_def)
  have cm: "compute_logits (clip_model ?self) images text_tokens = compute_logits cm images text_tokens"
    by (simp add: CalShift_init_def compute_logits_def split: sum.splits)
  have 1: "isl (forward ag ?self images text_tokens labels)"
  proof (rule ccontr)
    assume "\<not> isl (forward ag ?self images text_tokens labels)"
    then obtain lg fim where "compute_fisher_penalty ag ?self lg labels = Inr fim"
      by (auto simp: forward_def isl_def split: sum.splits)
    with compute_fisher_penalty_None[OF pl, of ag lg labels] show False by simp
  qed
  have 2: "forward ag ?self images text_tokens labels = Inl AttributeError"
    if lg: "compute_logits cm images text_tokens = Inr lg" and cl: "contrastive_loss lg labels = Inr cl"
      and r: "0 < rows lg" and l: "0 \<le> labels ! 0" for lg cl
  proof -
    from contrastive_loss_InrD[OF cl] r have len: "0 < length labels" and c: "cols lg = length labels" 
      and v: "list_all (valid_target (length labels)) labels" by auto
    from v len have "valid_target (length labels) (labels ! 0)" by (simp add: list_all_length)
    with l have "labels ! 0 < int (cols lg)" by (auto simp: valid_target_def ignore_index_def c)
    from compute_fisher_penalty_AttributeError[OF pl r len l this]
    show ?thesis using lg cl cm by (simp add: forward_def)
  qed
  from 1 2 show ?thesis by blast
qed

theorem forward_as_constructed_fails_witness:
  "isl (forward const_grad (CalShift_init (backbone 1) 0 0) () () [0]) \<and>
   compute_logits (backbone 1) () () = Inr \<lparr>rows = 1, cols = 1, elem = (\<lambda>i j. Some 1)\<rparr> \<and>
   contrastive_loss \<lparr>rows = 1, cols = 1, elem = (\<lambda>i j. Some 1)\<rparr> [0] = Inr (Some 0) \<and>
   forward const_grad (CalShift_init (backbone 1) 0 0) () () [0] = Inl AttributeError"
proof -
  have a: "compute_logits (backbone 1) () () = Inr \<lparr>rows = 1, cols = 1, elem = (\<lambda>i j. Some 1)\<rparr>"
    by (simp add: eval_defs)
  have b: "contrastive_loss \<lparr>rows = 1, cols = 1, elem = (\<lambda>i j. Some 1)\<rparr> [0] = Inr (Some 0)"
    by (simp add: eval_defs)
  from forward_as_constructed_fails [of const_grad "backbone 1" 0 0 "()" "()" "[0]"] a b
  show ?thesis by simp
qed

text \<open>
  C4. With \<open>N\<close> images and \<open>M\<close> prompts, \<open>N \<noteq> M\<close>, forward fails; when the
  embedding dimensions agree and every label lies in \<open>[0, M)\<close> the failure is the
  batch-size error of a cross-entropy (the column direction applies the \<open>N\<close> labels to
  the \<open>M\<close> rows of the transposed logits).
\<close>

theorem forward_needs_square_batch:
  assumes "rows (encode_image (clip_model self) images) \<noteq> rows (encode_text (clip_model self) text_tokens)"
  shows "isl (forward ag self images text_tokens labels) \<and>
     (cols (encode_image (clip_model self) images) = cols (encode_text (clip_model self) text_tokens) \<and>
      (\<forall>l\<in>set labels. 0 \<le> l \<and> l < int (rows (encode_text (clip_model self) text_tokens))) \<longrightarrow>
      (\<exists>lg. compute_logits (clip_model self) images text_tokens = Inr lg \<and>
            contrastive_loss lg labels = Inl ValueError) \<and>
      forward ag self images text_tokens labels = Inl ValueError)"
proof -
  have 1: "isl (forward ag self images text_tokens labels)"
  proof (rule ccontr)
    assume "\<not> isl (forward ag self images text_tokens labels)"
    then obtain lg cl where lg: "compute_logits (clip_model self) images text_tokens = Inr lg"
      and cl: "contrastive_loss lg labels = Inr cl"
      by (auto simp: forward_def isl_def split: sum.splits)
    from contrastive_loss_InrD(1,2)[OF cl] compute_logits_shape[OF lg] assms show False by simp
  qed
  have 2: "(\<exists>lg. compute_logits (clip_model self) images text_tokens = Inr lg \<and>
            contrastive_loss lg labels = Inl ValueError) \<and>
      forward ag self images text_tokens labels = Inl ValueError"
    if d: "cols (encode_image (clip_model self) images) = cols (encode_text (clip_model self) text_tokens)"
      and l: "\<forall>l\<in>set labels. 0 \<le> l \<and> l < int (rows (encode_text (clip_model self) text_tokens))"
  proof -
    from d compute_logits_isl[of "clip_model self" images text_tokens]
    obtain lg where lg: "compute_logits (clip_model self) images text_tokens = Inr lg"
      by (cases "compute_logits (clip_model self) images text_tokens") auto
    note sh = compute_logits_shape[OF lg]
    from l sh have v: "list_all (valid_target (cols lg)) labels"
      by (auto simp: list_all_iff valid_target_def)
    have "contrastive_loss lg labels = Inl ValueError"
      using v sh assms
      by (auto simp: contrastive_loss_def cross_entropy_def transpose2_def Let_def split: sum.splits)
    then show ?thesis using lg by (simp add: forward_def)
  qed
  from 1 2 show ?thesis by blast
qed

theorem forward_needs_square_batch_witness:
  "rows (encode_image (clip_model (CalShift_init demo (2/5) (2/5))) ()) \<noteq>
     rows (encode_text (clip_model (CalShift_init demo (2/5) (2/5))) ()) \<and>
   (\<exists>lg. compute_logits (clip_model (CalShift_init demo (2/5) (2/5))) () () = Inr lg \<and>
         contrastive_loss lg [0, 1, 0, 1] = Inl ValueError) \<and>
   forward const_grad (CalShift_init demo (2/5) (2/5)) () () [0, 1, 0, 1] = Inl ValueError"
  using forward_needs_square_batch [of "CalShift_init demo (2/5) (2/5)" "()" "()" const_grad "[0, 1, 0, 1]"]
  by (simp add: CalShift_init_def demo_def ones_def)

subsection \<open>The Fisher penalty\<close>

lemma fisher_loop_InrD:
  "fisher_loop ag pl probs labels is acc = Inr gs \<Longrightarrow>
   \<exists>new. gs = acc @ new \<and> length new = length is \<and>
     (\<forall>k<length is. \<exists>l p params grad.
         getitem labels (is ! k) = Inr l \<and> index2 probs (is ! k) l = Inr p \<and>
         pl = Some params \<and> ag (is ! k) (flog p) params = Inr grad \<and> grad \<noteq> [] \<and>
         new ! k = concat grad)"
proof (induction "is" arbitrary: acc)
  case Nil
  then show ?case by simp
next
  case (Cons i "is")
  from Cons.prems obtain l0 p0 params0 grad0 where
    s: "getitem labels i = Inr l0" "index2 probs i l0 = Inr p0" "pl = Some params0"
       "ag i (flog p0) params0 = Inr grad0" "grad0 \<noteq> []" and
    rest: "fisher_loop ag pl probs labels is (acc @ [concat grad0]) = Inr gs"
    by (auto simp: Let_def cat_def split: sum.splits option.splits if_splits)
  from Cons.IH[OF rest] obtain new where
    n: "gs = (acc @ [concat grad0]) @ new" "length new = length is" and
    a: "\<forall>k<length is. \<exists>l p params grad.
         getitem labels (is ! k) = Inr l \<and> index2 probs (is ! k) l = Inr p \<and>
         pl = Some params \<and> ag (is ! k) (flog p) params = Inr grad \<and> grad \<noteq> [] \<and>
         new ! k = concat grad"
    by blast
  have "\<exists>l p params grad.
         getitem labels ((i # is) ! k) = Inr l \<and> index2 probs ((i # is) ! k) l = Inr p \<and>
         pl = Some params \<and> ag ((i # is) ! k) (flog p) params = Inr grad \<and> grad \<noteq> [] \<and>
         (concat grad0 # new) ! k = concat grad" if "k < length (i # is)" for k
  proof (cases k)
    case 0
    then show ?thesis using s by auto
  next
    case (Suc k')
    with that have "k' < length is" by simp
    with a Suc show ?thesis by simp
  qed
  with n show ?case by (intro exI[of _ "concat grad0 # new"]) simp
qed

lemma sum_squares_cases:
  "fsum (map (\<lambda>x. fmul x x) g) = (if NaN \<in> set g then NaN else Some (sum_list (map (\<lambda>x. the x * the x) g)))"
proof (induction g)
  case Nil
  then show ?case by simp
next
  case (Cons a g)
  then show ?case by (cases a) auto
qed

lemma norm_row_squared: "fmul (norm_row g) (norm_row g) = fsum (map (\<lambda>x. fmul x x) g)"
proof (cases "NaN \<in> set g")
  case True
  then show ?thesis by (simp add: norm_row_def sum_squares_cases)
next
  case False
  have "0 \<le> sum_list (map (\<lambda>x. the x * the x) g)"
    by (rule sum_list_nonneg) auto
  with False show ?thesis by (simp add: norm_row_def sum_squares_cases)
qed

lemma stack_rows:
  assumes "stack gs = Inr G"
  shows "gs \<noteq> [] \<and> rows G = length gs \<and> (\<forall>i<length gs. row G i = gs ! i)"
proof -
  from assms have ne: "gs \<noteq> []" and all: "list_all (\<lambda>g. length g = length (hd gs)) gs"
    and G: "G = \<lparr>rows = length gs, cols = length (hd gs), elem = (\<lambda>i j. gs ! i ! j)\<rparr>"
    by (auto simp: stack_def split: if_splits)
  have "row G i = gs ! i" if "i < length gs" for i
  proof -
    from all that have "length (hd gs) = length (gs ! i)" by (simp add: list_all_length)
    moreover have "map ((!) (gs ! i)) [0..<length (gs ! i)] = gs ! i" by (rule map_nth)
    ultimately show ?thesis by (simp add: G row_def)
  qed
  with ne G show ?thesis by simp
qed


lemma fsum_NaN_iff: "fsum xs = NaN \<longleftrightarrow> NaN \<in> set xs"
  by (simp add: fsum_char)

lemma map_upt_nth: "map (\<lambda>i. f (xs ! i)) [0..<length xs] = map f xs"
proof -
  have "map f (map ((!) xs) [0..<length xs]) = map f xs" by (simp only: map_nth)
  then show ?thesis by (simp only: map_map comp_def)
qed

text \<open>
  C10. Whenever \<open>compute_fisher_penalty\<close> returns, the batch is not empty, the loop has
  produced for each sample the concatenation of the gradient tensors of the log-probability
  of its labelled class, and the penalty is the mean over the samples of the squared
  Euclidean norm of that vector; it is NaN exactly when some gradient entry is NaN, and
  otherwise a number greater than or equal to 0.
\<close>

theorem fisher_penalty_nonneg:
  assumes "compute_fisher_penalty ag self lg labels = Inr v"
  shows "\<exists>gs. fisher_loop ag (prompt_learner self) (softmax lg) labels [0..<rows lg] [] = Inr gs \<and>
           length gs = rows lg \<and> 0 < rows lg \<and>
           (\<forall>i<rows lg. \<exists>l p params grad.
               getitem labels i = Inr l \<and> index2 (softmax lg) i l = Inr p \<and>
               prompt_learner self = Some params \<and> ag i (flog p) params = Inr grad \<and>
               gs ! i = concat grad) \<and>
           v = fdiv (fsum (map (\<lambda>g. fsum (map (\<lambda>x. fmul x x) g)) gs)) (Some (real (rows lg))) \<and>
           (v = NaN \<longleftrightarrow> NaN \<in> set (concat gs)) \<and>
           (\<forall>x. v = Some x \<longrightarrow> 0 \<le> x)"
proof -
  from assms obtain gs G where
    loop: "fisher_loop ag (prompt_learner self) (softmax lg) labels [0..<rows lg] [] = Inr gs"
    and st: "stack gs = Inr G"
    and v: "v = mean (map (\<lambda>i. let n = norm_row (row G i) in fmul n n) [0..<rows G])"
    by (auto simp: compute_fisher_penalty_def Let_def split: sum.splits)
  from fisher_loop_InrD[OF loop] have len: "length gs = rows lg" and
    per: "\<forall>k<rows lg. \<exists>l p params grad.
         getitem labels k = Inr l \<and> index2 (softmax lg) k l = Inr p \<and>
         prompt_learner self = Some params \<and> ag k (flog p) params = Inr grad \<and> grad \<noteq> [] \<and>
         gs ! k = concat grad"
    by auto
  from stack_rows[OF st] have ne: "gs \<noteq> []" and rG: "rows G = length gs"
    and rw: "\<forall>i<length gs. row G i = gs ! i" by auto
  let ?sq = "\<lambda>g. fsum (map (\<lambda>x. fmul x x) g)"
  have "map (\<lambda>i. let n = norm_row (row G i) in fmul n n) [0..<rows G] =
        map (\<lambda>i. ?sq (gs ! i)) [0..<length gs]"
    using rw by (simp add: rG Let_def norm_row_squared)
  also have "\<dots> = map ?sq gs" by (rule map_upt_nth)
  finally have v': "v = fdiv (fsum (map ?sq gs)) (Some (real (rows lg)))"
    by (simp add: v mean_def len)
  from ne len have pos: "0 < rows lg" by (cases gs) auto
  have sq_nan: "?sq g = NaN \<longleftrightarrow> NaN \<in> set g" for g
    by (simp add: sum_squares_cases)
  have "fsum (map ?sq gs) = NaN \<longleftrightarrow> NaN \<in> set (map ?sq gs)"
    by (rule fsum_NaN_iff)
  also have "\<dots> \<longleftrightarrow> (\<exists>g\<in>set gs. ?sq g = NaN)"
    by (simp only: set_map image_iff) metis
  also have "\<dots> \<longleftrightarrow> NaN \<in> set (concat gs)"
    by (simp only: sq_nan set_concat UN_iff)
  finally have nan_iff: "fsum (map ?sq gs) = NaN \<longleftrightarrow> NaN \<in> set (concat gs)" .
  have nonneg: "0 \<le> s" if "fsum (map ?sq gs) = Some s" for s
  proof -
    from that have s: "s = sum_list (map the (map ?sq gs))" and nn: "None \<notin> set (map ?sq gs)"
      by (auto simp: fsum_char split: if_splits)
    have "0 \<le> the (?sq g)" if "g \<in> set gs" for g
    proof -
      from nn that have "?sq g \<noteq> NaN" by (simp only: set_map image_iff) metis
      then have "NaN \<notin> set g" by (simp only: sq_nan) simp
      then have "?sq g = Some (sum_list (map (\<lambda>x. the x * the x) g))" by (simp add: sum_squares_cases)
      moreover have "0 \<le> sum_list (map (\<lambda>x. the x * the x) g)" by (rule sum_list_nonneg) auto
      ultimately show ?thesis by simp
    qed
    then show ?thesis unfolding s by (intro sum_list_nonneg) auto
  qed
  have 1: "v = NaN \<longleftrightarrow> NaN \<in> set (concat gs)"
    using nan_iff pos by (cases "fsum (map ?sq gs)") (auto simp: v')
  have 2: "\<forall>x. v = Some x \<longrightarrow> 0 \<le> x"
    using nonneg pos by (cases "fsum (map ?sq gs)") (auto simp: v')
  have per': "\<forall>i<rows lg. \<exists>l p params grad.
               getitem labels i = Inr l \<and> index2 (softmax lg) i l = Inr p \<and>
               prompt_learner self = Some params \<and> ag i (flog p) params = Inr grad \<and>
               gs ! i = concat grad"
  proof (intro allI impI)
    fix i assume "i < rows lg"
    with per obtain l p params grad where
      "getitem labels i = Inr l" "index2 (softmax lg) i l = Inr p"
      "prompt_learner self = Some params" "ag i (flog p) params = Inr grad"
      "gs ! i = concat grad" by blast
    then show "\<exists>l p params grad.
               getitem labels i = Inr l \<and> index2 (softmax lg) i l = Inr p \<and>
               prompt_learner self = Some params \<and> ag i (flog p) params = Inr grad \<and>
               gs ! i = concat grad" by blast
  qed
  show ?thesis
    by (rule exI[of _ gs]) (intro conjI loop len pos per' v' 1 2)
qed

lemma fisher_tuned_1:
  "compute_fisher_penalty const_grad (tuned 1) \<lparr>rows = 1, cols = 1, elem = (\<lambda>i j. Some 1)\<rparr> [0] = Inr (Some 9)"
  by (simp add: eval_defs)

theorem fisher_penalty_nonneg_witness:
  "compute_fisher_penalty const_grad (tuned 1) \<lparr>rows = 1, cols = 1, elem = (\<lambda>i j. Some 1)\<rparr> [0] = Inr (Some 9) \<and>
   (0::real) \<le> 9"
proof -
  from fisher_penalty_nonneg [OF fisher_tuned_1]
  have "\<forall>x. Some (9::real) = Some x \<longrightarrow> 0 \<le> x" by blast
  then have "(0::real) \<le> 9" by simp
  with fisher_tuned_1 show ?thesis by simp
qed

subsection \<open>The confidence-misalignment penalty\<close>

lemma sum_list_exp_pos: "xs \<noteq> [] \<Longrightarrow> 0 < (\<Sum>x\<leftarrow>xs. exp (f x :: real))"
proof (induction xs)
  case Nil
  then show ?case by simp
next
  case (Cons a xs)
  have "0 \<le> (\<Sum>x\<leftarrow>xs. exp (f x))" by (rule sum_list_nonneg) auto
  moreover have "0 < exp (f a)" by simp
  ultimately show ?case by (simp add: add_pos_nonneg)
qed

lemma fsum_map_Some: "fsum (map (\<lambda>x. Some (f x)) xs) = Some (sum_list (map f xs))"
proof -
  have "map (\<lambda>x. Some (f x)) xs = map Some (map f xs)" by simp
  then show ?thesis by (simp only: fsum_Some)
qed

lemma softmax_lift:
  assumes "j < cols L"
  shows "elem (softmax (lift L)) i j = Some (softmax_prob L i j)"
proof -
  from assms have ne: "[0..<cols L] \<noteq> []" by auto
  have r: "row (lift L) i = map (\<lambda>k. Some (elem L i k)) [0..<cols L]"
    by (simp add: row_def lift_def)
  have z: "fsum (map fexp (row (lift L) i)) = Some (\<Sum>k\<leftarrow>[0..<cols L]. exp (elem L i k))"
    by (simp only: r map_map comp_def fexp.simps fsum_map_Some)
  from sum_list_exp_pos[OF ne, of "elem L i"] have pos: "(\<Sum>k\<leftarrow>[0..<cols L]. exp (elem L i k)) \<noteq> 0"
    by simp
  have "softmax_row (row (lift L) i) ! j = fdiv (fexp (Some (elem L i j))) (Some (\<Sum>k\<leftarrow>[0..<cols L]. exp (elem L i k)))"
    using assms by (simp add: softmax_row_def z Let_def) (simp add: r)
  then show ?thesis using pos
    by (simp add: softmax_def softmax_prob_def)
qed


lemma cmp_step_lift:
  assumes i: "i < rows L" and l: "0 \<le> l" "l < int (cols L)"
  shows "index2 (softmax (lift L)) i l = Inr (Some (softmax_prob L i (nat l)))"
    and "fsum (map (elem (softmax (lift L)) i)
           (filter (\<lambda>j. fgt (elem (softmax (lift L)) i j) (Some (softmax_prob L i (nat l))) \<and> int j \<noteq> l)
              [0..<cols (softmax (lift L))])) =
         Some (\<Sum>j\<leftarrow>filter (\<lambda>j. j \<noteq> nat l \<and> softmax_prob L i (nat l) < softmax_prob L i j) [0..<cols L].
                 softmax_prob L i j)"
proof -
  from l have n: "nat l < cols L" by simp
  have sh: "rows (softmax (lift L)) = rows L" "cols (softmax (lift L)) = cols L"
    by (simp_all add: softmax_def lift_def)
  show "index2 (softmax (lift L)) i l = Inr (Some (softmax_prob L i (nat l)))"
    using i l n by (simp add: index2_def sh softmax_lift)
  have f: "filter (\<lambda>j. fgt (elem (softmax (lift L)) i j) (Some (softmax_prob L i (nat l))) \<and> int j \<noteq> l)
              [0..<cols L] =
           filter (\<lambda>j. j \<noteq> nat l \<and> softmax_prob L i (nat l) < softmax_prob L i j) [0..<cols L]"
    using l by (intro filter_cong refl) (auto simp: softmax_lift)
  have m: "map (elem (softmax (lift L)) i) (filter P [0..<cols L]) =
           map (\<lambda>j. Some (softmax_prob L i j)) (filter P [0..<cols L])" for P
    by (intro map_cong refl) (auto simp: softmax_lift)
  show "fsum (map (elem (softmax (lift L)) i)
           (filter (\<lambda>j. fgt (elem (softmax (lift L)) i j) (Some (softmax_prob L i (nat l))) \<and> int j \<noteq> l)
              [0..<cols (softmax (lift L))])) =
         Some (\<Sum>j\<leftarrow>filter (\<lambda>j. j \<noteq> nat l \<and> softmax_prob L i (nat l) < softmax_prob L i j) [0..<cols L].
                 softmax_prob L i j)"
    by (simp only: sh f m fsum_map_Some)
qed

lemma cmp_loop_lift:
  assumes "\<forall>i\<in>set is. i < rows L \<and> i < length labels \<and> 0 \<le> labels ! i \<and> labels ! i < int (cols L)"
  shows "cmp_loop (softmax (lift L)) labels is (Some a) =
           Inr (Some (a + (\<Sum>i\<leftarrow>is. cmp_term_spec L i (nat (labels ! i)))))"
  using assms
proof (induction "is" arbitrary: a)
  case Nil
  then show ?case by simp
next
  case (Cons i "is")
  then have i: "i < rows L" "i < length labels" and l: "0 \<le> labels ! i" "labels ! i < int (cols L)"
    by auto
  let ?tp = "softmax_prob L i (nat (labels ! i))"
  let ?ep = "\<Sum>j\<leftarrow>filter (\<lambda>j. j \<noteq> nat (labels ! i) \<and> ?tp < softmax_prob L i j) [0..<cols L].
                 softmax_prob L i j"
  note st = cmp_step_lift[OF i(1) l]
  have t: "cmp_term_spec L i (nat (labels ! i)) = (if 0 < ?ep then ?tp / ?ep else 0)"
    by (simp add: cmp_term_spec_def Let_def)
  have "cmp_loop (softmax (lift L)) labels (i # is) (Some a) =
        cmp_loop (softmax (lift L)) labels is (Some (a + cmp_term_spec L i (nat (labels ! i))))"
    using i(2) by (simp add: getitem_def st Let_def t)
  also have "\<dots> = Inr (Some (a + cmp_term_spec L i (nat (labels ! i)) +
                      (\<Sum>i\<leftarrow>is. cmp_term_spec L i (nat (labels ! i)))))"
    using Cons.prems by (intro Cons.IH) simp
  finally show ?case by (simp add: add.assoc)
qed

lemma compute_cmp_lift:
  assumes "0 < rows L" and "length labels = rows L"
    and "\<forall>i<rows L. 0 \<le> labels ! i \<and> labels ! i < int (cols L)"
  shows "compute_cmp (lift L) labels = Inr (Some (cmp_spec L labels))"
proof -
  have "\<forall>i\<in>set [0..<rows L]. i < rows L \<and> i < length labels \<and> 0 \<le> labels ! i \<and> labels ! i < int (cols L)"
    using assms by simp
  from cmp_loop_lift[OF this, of 0] assms(1) show ?thesis
    by (simp add: compute_cmp_def cmp_spec_def Let_def) (simp add: lift_def)
qed

text \<open>
  C2. For a non-empty logits matrix and one label in \<open>[0, cols)\<close> for each row,
  \<open>compute_cmp\<close> returns the batch mean the specification describes: each sample
  contributes \<open>true_prob / excess_prob\<close> when \<open>excess_prob > 0\<close> and 0 otherwise.
\<close>

theorem compute_cmp_is_batch_mean:
  assumes "0 < rows L" and "length labels = rows L"
    and "\<forall>i<rows L. 0 \<le> labels ! i \<and> labels ! i < int (cols L)"
  shows "compute_cmp (lift L) labels = Inr (Some (cmp_spec L labels))"
  using assms by (rule compute_cmp_lift)


lemma all_less_2: "(\<forall>i<2::nat. P i) \<longleftrightarrow> P 0 \<and> P 1"
  by (auto simp: less_2_cases_iff)

lemma upt_2: "[0..<2] = [0, 1]"
  by (simp add: upt_conv_Cons)

lemma softmax_prob_anti2:
  "softmax_prob anti2 0 0 = 1 / (1 + exp 10)" "softmax_prob anti2 0 (Suc 0) = exp 10 / (1 + exp 10)"
  "softmax_prob anti2 (Suc 0) (Suc 0) = 1 / (1 + exp 10)" "softmax_prob anti2 (Suc 0) 0 = exp 10 / (1 + exp 10)"
  by (simp_all add: softmax_prob_def anti2_def upt_2 add.commute)

lemma cmp_spec_anti2: "cmp_spec anti2 [0, 1] = exp (- 10)"
proof -
  have a: "(1::real) < exp 10" by simp
  have b: "(0::real) < 1 + exp 10" by (simp add: add_pos_pos)
  have c: "1 / (1 + exp 10) < exp 10 / (1 + exp (10::real))"
    using a b by (simp add: divide_strict_right_mono)
  have d: "0 < exp 10 / (1 + exp (10::real))" using b by simp
  have anti2_shape: "rows anti2 = 2" "cols anti2 = 2" by (simp_all add: anti2_def)
  have t: "cmp_term_spec anti2 0 0 = exp (- 10)" "cmp_term_spec anti2 (Suc 0) (Suc 0) = exp (- 10)"
    using b c d by (simp_all add: cmp_term_spec_def Let_def anti2_shape upt_2 softmax_prob_anti2 exp_minus field_simps)
  show ?thesis by (simp add: cmp_spec_def anti2_shape upt_2 t)
qed

theorem compute_cmp_is_batch_mean_witness:
  "0 < rows anti2 \<and> length [0, 1 :: int] = rows anti2 \<and>
   compute_cmp (lift anti2) [0, 1] = Inr (Some (exp (- 10)))"
proof -
  have h: "0 < rows anti2" "length [0, 1 :: int] = rows anti2"
    "\<forall>i<rows anti2. 0 \<le> [0, 1 :: int] ! i \<and> [0, 1 :: int] ! i < int (cols anti2)"
    by (simp_all add: anti2_def all_less_2)
  from compute_cmp_is_batch_mean [OF h] h show ?thesis by (simp only: cmp_spec_anti2)
qed

lemma fgt_asym: "fgt a b \<Longrightarrow> \<not> fgt b a"
  by (cases a; cases b) auto

lemma cmp_loop_confident:
  assumes "\<forall>i\<in>set is. i < rows probs \<and> i < length labels \<and> 0 \<le> labels ! i \<and>
             labels ! i < int (cols probs) \<and>
             (\<forall>j<cols probs. int j \<noteq> labels ! i \<longrightarrow>
                 fgt (elem probs i (nat (labels ! i))) (elem probs i j))"
  shows "cmp_loop probs labels is acc = Inr acc"
  using assms
proof (induction "is")
  case Nil
  then show ?case by simp
next
  case (Cons i "is")
  then have i: "i < rows probs" "i < length labels" and l: "0 \<le> labels ! i" "labels ! i < int (cols probs)"
    and d: "\<forall>j<cols probs. int j \<noteq> labels ! i \<longrightarrow> fgt (elem probs i (nat (labels ! i))) (elem probs i j)"
    by auto
  have ix: "index2 probs i (labels ! i) = Inr (elem probs i (nat (labels ! i)))"
    using i l by (simp add: index2_def)
  have f: "filter (\<lambda>j. fgt (elem probs i j) (elem probs i (nat (labels ! i))) \<and> int j \<noteq> labels ! i)
             [0..<cols probs] = []"
    using d by (auto simp: filter_empty_conv dest: fgt_asym)
  have "cmp_loop probs labels (i # is) acc = cmp_loop probs labels is acc"
    using i(2) by (simp add: getitem_def ix Let_def f)
  also have "\<dots> = Inr acc" using Cons.prems by (intro Cons.IH) simp
  finally show ?case .
qed

text \<open>
  C9, as amended. For a non-empty batch with one label in \<open>[0, cols)\<close> for each row, if
  in every row the softmax probability of the labelled class is strictly greater than that
  of every other class, the confidence-misalignment penalty is 0.
\<close>

theorem cmp_zero_when_labels_dominate:
  assumes "0 < rows lg" and "length labels = rows lg"
    and "\<forall>i<rows lg. 0 \<le> labels ! i \<and> labels ! i < int (cols lg)"
    and "\<forall>i<rows lg. \<forall>j<cols lg. int j \<noteq> labels ! i \<longrightarrow>
           fgt (elem (softmax lg) i (nat (labels ! i))) (elem (softmax lg) i j)"
  shows "compute_cmp lg labels = Inr (Some 0)"
proof -
  have sh: "rows (softmax lg) = rows lg" "cols (softmax lg) = cols lg"
    by (simp_all add: softmax_def)
  have "\<forall>i\<in>set [0..<rows lg]. i < rows (softmax lg) \<and> i < length labels \<and> 0 \<le> labels ! i \<and>
             labels ! i < int (cols (softmax lg)) \<and>
             (\<forall>j<cols (softmax lg). int j \<noteq> labels ! i \<longrightarrow>
                 fgt (elem (softmax lg) i (nat (labels ! i))) (elem (softmax lg) i j))"
    using assms by (simp add: sh)
  from cmp_loop_confident[OF this, of "Some 0"] assms(1) show ?thesis
    by (simp add: compute_cmp_def Let_def)
qed

text \<open>
  C9 as stated fails on the empty batch, where every sample (there is none) has a dominant
  label: \<open>cmp_loss / batch_size\<close> divides the Python float \<open>0.0\<close> by the integer 0.
\<close>

theorem cmp_empty_batch_raises:
  "compute_cmp (lift (ones 0 2)) [] = Inl ZeroDivisionError"
  by (simp add: compute_cmp_def lift_def ones_def)

lemma softmax_prob_diag2:
  "softmax_prob diag2 0 0 = exp 10 / (1 + exp 10)" "softmax_prob diag2 0 (Suc 0) = 1 / (1 + exp 10)"
  "softmax_prob diag2 (Suc 0) (Suc 0) = exp 10 / (1 + exp 10)" "softmax_prob diag2 (Suc 0) 0 = 1 / (1 + exp 10)"
  by (simp_all add: softmax_prob_def diag2_def upt_2 add.commute)

theorem cmp_zero_when_labels_dominate_witness:
  "0 < rows (lift diag2) \<and> length [0, 1 :: int] = rows (lift diag2) \<and>
   fgt (elem (softmax (lift diag2)) 0 0) (elem (softmax (lift diag2)) 0 1) \<and>
   fgt (elem (softmax (lift diag2)) 1 1) (elem (softmax (lift diag2)) 1 0) \<and>
   compute_cmp (lift diag2) [0, 1] = Inr (Some 0)"
proof -
  have sh: "rows (lift diag2) = 2" "cols (lift diag2) = 2" "cols diag2 = 2"
    by (simp_all add: lift_def diag2_def)
  have b: "(0::real) < 1 + exp 10" by (simp add: add_pos_pos)
  have c: "1 / (1 + exp 10) < exp 10 / (1 + exp (10::real))"
    using b by (simp add: divide_strict_right_mono)
  have h1: "0 < rows (lift diag2)" "length [0, 1 :: int] = rows (lift diag2)"
    "\<forall>i<rows (lift diag2). 0 \<le> [0, 1 :: int] ! i \<and> [0, 1 :: int] ! i < int (cols (lift diag2))"
    by (simp_all add: sh all_less_2)
  have h2: "\<forall>i<rows (lift diag2). \<forall>j<cols (lift diag2). int j \<noteq> [0, 1 :: int] ! i \<longrightarrow>
       fgt (elem (softmax (lift diag2)) i (nat ([0, 1 :: int] ! i))) (elem (softmax (lift diag2)) i j)"
    using c by (simp add: sh all_less_2 softmax_lift softmax_prob_diag2)
  have h3: "fgt (elem (softmax (lift diag2)) 0 0) (elem (softmax (lift diag2)) 0 1)"
    "fgt (elem (softmax (lift diag2)) 1 1) (elem (softmax (lift diag2)) 1 0)"
    using c by (simp_all add: sh softmax_lift softmax_prob_diag2)
  from cmp_zero_when_labels_dominate [OF h1 h2] h1(1,2) h3 show ?thesis by blast
qed

subsection \<open>Labels out of range\<close>

lemma index2_InrD:
  "index2 T i l = Inr p \<Longrightarrow> i < rows T \<and> - int (cols T) \<le> l \<and> l < int (cols T)"
  by (auto simp: index2_def Let_def split: if_splits)

lemma index2_succeeds:
  "i < rows T \<Longrightarrow> - int (cols T) \<le> l \<Longrightarrow> l < int (cols T) \<Longrightarrow> \<exists>p. index2 T i l = Inr p"
  by (auto simp: index2_def Let_def)

lemma getitem_InrD: "getitem xs i = Inr x \<Longrightarrow> i < length xs \<and> x = xs ! i"
  by (auto simp: getitem_def split: if_splits)

lemma forward_InrD:
  assumes "forward ag self images text_tokens labels = Inr r"
  shows "\<exists>lg cl fim cmp. compute_logits (clip_model self) images text_tokens = Inr lg \<and>
           contrastive_loss lg labels = Inr cl \<and>
           compute_fisher_penalty ag self lg labels = Inr fim \<and>
           compute_cmp lg labels = Inr cmp \<and>
           r = \<lparr>loss = fadd (fadd cl (fmul (Some (lambda_fim self)) fim))
                              (fmul (Some (lambda_cmp self)) cmp),
                clip_loss = cl, fim_penalty = fim, cmp_penalty = cmp, logits = lg\<rparr>"
  using assms by (auto simp: forward_def Let_def split: sum.splits)

lemma forward_labels_indexable:
  assumes "forward ag self images text_tokens labels = Inr r"
  shows "\<forall>l\<in>set labels. valid_target (rows (encode_text (clip_model self) text_tokens)) l \<and>
            - int (rows (encode_text (clip_model self) text_tokens)) \<le> l"
proof -
  from forward_InrD[OF assms] obtain lg cl fim where
    lg: "compute_logits (clip_model self) images text_tokens = Inr lg" and
    cl: "contrastive_loss lg labels = Inr cl" and
    fim: "compute_fisher_penalty ag self lg labels = Inr fim" by blast
  note sh = compute_logits_shape[OF lg]
  note c = contrastive_loss_InrD[OF cl]
  from fim obtain gs where
    loop: "fisher_loop ag (prompt_learner self) (softmax lg) labels [0..<rows lg] [] = Inr gs"
    by (auto simp: compute_fisher_penalty_def Let_def split: sum.splits)
  have cs: "cols (softmax lg) = cols lg" by (simp add: softmax_def)
  show ?thesis
  proof
    fix l assume "l \<in> set labels"
    then obtain k where k: "k < length labels" "l = labels ! k" by (auto simp: in_set_conv_nth)
    with c have k': "k < length [0..<rows lg]" "[0..<rows lg] ! k = k" by simp_all
    from fisher_loop_InrD[OF loop] k' obtain l' p where
      "getitem labels k = Inr l'" "index2 (softmax lg) k l' = Inr p" by fastforce
    with getitem_InrD[of labels k l'] k have "index2 (softmax lg) k l = Inr p" by simp
    from index2_InrD[OF this] have "- int (cols lg) \<le> l" by (simp add: cs)
    moreover from c(3) k have "valid_target (length labels) l" by (simp add: list_all_length)
    ultimately show "valid_target (rows (encode_text (clip_model self) text_tokens)) l \<and>
            - int (rows (encode_text (clip_model self) text_tokens)) \<le> l"
      using sh c by metis
  qed
qed

text \<open>
  C7, as amended. With \<open>M\<close> prompts, forward raises an error for every batch that
  contains a label \<open>l \<ge> M\<close>, or a negative label other than \<open>-100\<close>, or the label
  \<open>-100\<close> when \<open>M < 100\<close>.
\<close>

theorem forward_rejects_invalid_labels:
  assumes "l \<in> set labels"
    and "l < 0 \<or> int (rows (encode_text (clip_model self) text_tokens)) \<le> l"
    and "l \<noteq> - 100 \<or> rows (encode_text (clip_model self) text_tokens) < 100"
  shows "isl (forward ag self images text_tokens labels)"
proof (rule ccontr)
  assume "\<not> isl (forward ag self images text_tokens labels)"
  then obtain r where "forward ag self images text_tokens labels = Inr r"
    by (cases "forward ag self images text_tokens labels") auto
  from forward_labels_indexable[OF this] assms(1)
  have "valid_target (rows (encode_text (clip_model self) text_tokens)) l"
    and "- int (rows (encode_text (clip_model self) text_tokens)) \<le> l" by auto
  with assms(2,3) show False by (auto simp: valid_target_def ignore_index_def)
qed

theorem forward_rejects_invalid_labels_witness:
  "(5::int) \<in> set [0, 5] \<and> rows (encode_text (clip_model (tuned 2)) ()) = 2 \<and>
   isl (forward const_grad (tuned 2) () () [0, 5])"
proof -
  have m: "rows (encode_text (clip_model (tuned 2)) ()) = 2"
    by (simp add: tuned_def CalShift_init_def backbone_def ones_def)
  have h: "(5::int) \<in> set [0, 5]"
    "(5::int) < 0 \<or> int (rows (encode_text (clip_model (tuned 2)) ())) \<le> 5"
    "(5::int) \<noteq> - 100 \<or> rows (encode_text (clip_model (tuned 2)) ()) < 100"
    by (simp_all add: m)
  from forward_rejects_invalid_labels [OF h] h(1) m show ?thesis by blast
qed


lemma cmp_loop_succeeds:
  assumes "\<forall>i\<in>set is. i < length labels \<and> i < rows probs \<and>
             - int (cols probs) \<le> labels ! i \<and> labels ! i < int (cols probs)"
  shows "\<exists>v. cmp_loop probs labels is acc = Inr v"
  using assms
proof (induction "is" arbitrary: acc)
  case Nil
  then show ?case by simp
next
  case (Cons i "is")
  then have i: "i < length labels" "i < rows probs"
    "- int (cols probs) \<le> labels ! i" "labels ! i < int (cols probs)" by auto
  from index2_succeeds[OF i(2,3,4)] obtain p where p: "index2 probs i (labels ! i) = Inr p" by blast
  from Cons.prems have rest: "\<forall>i\<in>set is. i < length labels \<and> i < rows probs \<and>
             - int (cols probs) \<le> labels ! i \<and> labels ! i < int (cols probs)" by simp
  show ?case using i(1) p Cons.IH[OF rest] by (simp add: getitem_def Let_def)
qed

lemma fisher_loop_succeeds:
  assumes "\<forall>i\<in>set is. i < length labels \<and> i < rows probs \<and>
             - int (cols probs) \<le> labels ! i \<and> labels ! i < int (cols probs)"
    and "\<And>i lp. \<exists>g. ag i lp pl = Inr g \<and> g \<noteq> [] \<and> length (concat g) = c"
    and "list_all (\<lambda>g. length g = c) acc"
  shows "\<exists>gs. fisher_loop ag (Some pl) probs labels is acc = Inr gs \<and>
           list_all (\<lambda>g. length g = c) gs \<and> length gs = length acc + length is"
  using assms(1,3)
proof (induction "is" arbitrary: acc)
  case Nil
  then show ?case by simp
next
  case (Cons i "is")
  then have i: "i < length labels" "i < rows probs"
    "- int (cols probs) \<le> labels ! i" "labels ! i < int (cols probs)" by auto
  from index2_succeeds[OF i(2,3,4)] obtain p where p: "index2 probs i (labels ! i) = Inr p" by blast
  from assms(2)[of i "flog p"] obtain g where
    g: "ag i (flog p) pl = Inr g" "g \<noteq> []" "length (concat g) = c" by blast
  from Cons.prems(1) have rest: "\<forall>i\<in>set is. i < length labels \<and> i < rows probs \<and>
             - int (cols probs) \<le> labels ! i \<and> labels ! i < int (cols probs)" by simp
  from Cons.prems(2) g(3) have acc: "list_all (\<lambda>g. length g = c) (acc @ [concat g])" by simp
  from Cons.IH[OF rest acc] obtain gs where
    "fisher_loop ag (Some pl) probs labels is (acc @ [concat g]) = Inr gs"
    "list_all (\<lambda>g. length g = c) gs" "length gs = length (acc @ [concat g]) + length is" by blast
  then show ?case using i(1) p g by (simp add: getitem_def Let_def cat_def)
qed

lemma stack_succeeds:
  assumes "gs \<noteq> []" and "list_all (\<lambda>g. length g = c) gs"
  shows "\<exists>G. stack gs = Inr G"
proof -
  from assms have "length (hd gs) = c" by (cases gs) auto
  with assms(2) have "list_all (\<lambda>g. length g = length (hd gs)) gs" by simp
  with assms(1) show ?thesis by (simp add: stack_def)
qed

lemma contrastive_loss_succeeds:
  assumes "rows lg = length labels" and "cols lg = length labels"
    and "list_all (valid_target (length labels)) labels"
  shows "\<exists>cl. contrastive_loss lg labels = Inr cl"
  using assms by (simp add: contrastive_loss_def cross_entropy_def transpose2_def Let_def)

lemma forward_succeeds:
  assumes d: "cols (encode_image (clip_model self) images) = cols (encode_text (clip_model self) text_tokens)"
    and n: "rows (encode_image (clip_model self) images) = length labels"
    and m: "rows (encode_text (clip_model self) text_tokens) = length labels"
    and ne: "labels \<noteq> []"
    and v: "\<forall>l\<in>set labels. valid_target (length labels) l \<and> - int (length labels) \<le> l"
    and pl: "prompt_learner self = Some pl"
    and ag: "\<And>i lp. \<exists>g. ag i lp pl = Inr g \<and> g \<noteq> [] \<and> length (concat g) = c"
  shows "\<not> isl (forward ag self images text_tokens labels)"
proof -
  from d compute_logits_isl[of "clip_model self" images text_tokens]
  obtain lg where lg: "compute_logits (clip_model self) images text_tokens = Inr lg"
    by (cases "compute_logits (clip_model self) images text_tokens") auto
  from compute_logits_shape[OF lg] n m have sh: "rows lg = length labels" "cols lg = length labels"
    by simp_all
  from v have va: "list_all (valid_target (length labels)) labels" by (simp add: list_all_iff)
  from contrastive_loss_succeeds[OF sh va] obtain cl where cl: "contrastive_loss lg labels = Inr cl"
    by blast
  have ix: "\<forall>i\<in>set [0..<rows lg]. i < length labels \<and> i < rows (softmax lg) \<and>
             - int (cols (softmax lg)) \<le> labels ! i \<and> labels ! i < int (cols (softmax lg))"
  proof
    fix i assume "i \<in> set [0..<rows lg]"
    with sh have i: "i < length labels" by simp
    then have "labels ! i \<in> set labels" by (rule nth_mem)
    with v have "valid_target (length labels) (labels ! i)" "- int (length labels) \<le> labels ! i"
      by auto
    then show "i < length labels \<and> i < rows (softmax lg) \<and>
             - int (cols (softmax lg)) \<le> labels ! i \<and> labels ! i < int (cols (softmax lg))"
      using i sh by (auto simp: softmax_def valid_target_def ignore_index_def)
  qed
  have "\<exists>gs. fisher_loop ag (Some pl) (softmax lg) labels [0..<rows lg] [] = Inr gs \<and>
           list_all (\<lambda>g. length g = c) gs \<and> length gs = length ([]::scalar list list) + length [0..<rows lg]"
    by (rule fisher_loop_succeeds[where c = c, OF ix]) (rule ag, simp)
  then obtain gs where
    gs: "fisher_loop ag (Some pl) (softmax lg) labels [0..<rows lg] [] = Inr gs"
      "list_all (\<lambda>g. length g = c) gs" "length gs = rows lg" by auto
  from gs(3) sh ne have "gs \<noteq> []" by auto
  from stack_succeeds[OF this gs(2)] obtain G where G: "stack gs = Inr G" by blast
  from gs(1) G pl obtain fim where fim: "compute_fisher_penalty ag self lg labels = Inr fim"
    by (simp add: compute_fisher_penalty_def Let_def)
  from cmp_loop_succeeds[OF ix, of "Some 0"] obtain c0 where
    "cmp_loop (softmax lg) labels [0..<rows lg] (Some 0) = Inr c0" by blast
  with sh ne obtain cmp where cmp: "compute_cmp lg labels = Inr cmp"
    by (simp add: compute_cmp_def Let_def)
  from lg cl fim cmp show ?thesis by (simp add: forward_def Let_def)
qed

text \<open>The batches of the example backbone: every logit is 1.\<close>

lemma fsum_replicate: "fsum (replicate n (Some c)) = Some (real n * c)"
  by (induction n) (simp_all add: algebra_simps)

lemma fsum_map_const:
  "fsum (map (\<lambda>_. Some c) xs) = Some (real (length xs) * c)"
  by (simp add: map_replicate_const fsum_replicate)

lemma compute_logits_tuned:
  "compute_logits (clip_model (tuned n)) () () = Inr (lift (ones n n))"
  by (simp add: compute_logits_def tuned_def CalShift_init_def backbone_def ones_def normalize_def matmul_def transpose2_def
      scale_def row_def norm_row_def lift_def Let_def)

lemma row_uniform: "row (lift (ones n n)) i = replicate n (Some 1)"
  by (simp add: row_def lift_def ones_def map_replicate_const)

lemma log_softmax_uniform:
  assumes "k < n"
  shows "fneg (log_softmax_row (row (lift (ones n n)) i) ! k) = Some (ln (real n))"
proof -
  from assms have n: "0 < real n" by simp
  have z: "fsum (map fexp (replicate n (Some 1))) = Some (real n * exp 1)"
    by (simp add: fsum_replicate)
  have l: "ln (real n * exp 1) = ln (real n) + 1"
    using n by (simp add: ln_mult)
  have "log_softmax_row (replicate n (Some 1)) ! k = fsub (Some 1) (flog (Some (real n * exp 1)))"
    using assms unfolding log_softmax_row_def z Let_def by simp
  also have "\<dots> = Some (1 - (ln (real n) + 1))"
    using n by (simp add: l)
  finally show ?thesis by (simp add: row_uniform)
qed

lemma cross_entropy_uniform:
  assumes "length labels = n" and "list_all (valid_target n) labels"
    and "l \<in> set labels" and "l \<noteq> ignore_index"
  shows "cross_entropy (lift (ones n n)) labels = Inr (Some (ln (real n)))"
proof -
  let ?kept = "filter (\<lambda>i. labels ! i \<noteq> ignore_index) [0..<n]"
  have sh: "rows (lift (ones n n)) = n" "cols (lift (ones n n)) = n"
    by (simp_all add: lift_def ones_def)
  from assms(3) obtain k where k: "k < length labels" "labels ! k = l"
    by (auto simp: in_set_conv_nth)
  with assms(1,4) have "k \<in> set ?kept" by simp
  then have ne: "0 < length ?kept" by (cases ?kept) auto
  have "map (\<lambda>i. fneg (log_softmax_row (row (lift (ones n n)) i) ! nat (labels ! i))) ?kept =
        map (\<lambda>_. Some (ln (real n))) ?kept"
  proof (intro map_cong refl)
    fix i assume "i \<in> set ?kept"
    then have "i < n" "labels ! i \<noteq> ignore_index" by auto
    with assms(1,2) have "nat (labels ! i) < n"
      by (auto simp: list_all_length valid_target_def)
    then show "fneg (log_softmax_row (row (lift (ones n n)) i) ! nat (labels ! i)) = Some (ln (real n))"
      by (rule log_softmax_uniform)
  qed
  then have m: "fsum (map (\<lambda>i. fneg (log_softmax_row (row (lift (ones n n)) i) ! nat (labels ! i))) ?kept) =
        Some (real (length ?kept) * ln (real n))"
    by (simp only: fsum_map_const)
  have "cross_entropy (lift (ones n n)) labels =
        Inr (fdiv (fsum (map (\<lambda>i. fneg (log_softmax_row (row (lift (ones n n)) i) ! nat (labels ! i))) ?kept))
                  (Some (real (length ?kept))))"
    using assms(1,2) by (simp add: cross_entropy_def sh Let_def)
  also have "\<dots> = Inr (Some (ln (real n)))"
    using ne by (simp only: m) simp
  finally show ?thesis .
qed

lemma contrastive_loss_uniform:
  assumes "length labels = n" and "list_all (valid_target n) labels"
    and "l \<in> set labels" and "l \<noteq> ignore_index"
  shows "contrastive_loss (lift (ones n n)) labels = Inr (Some (ln (real n)))"
proof -
  have t: "transpose2 (lift (ones n n)) = lift (ones n n)"
    by (simp add: transpose2_def lift_def ones_def)
  show ?thesis by (simp add: contrastive_loss_def t cross_entropy_uniform[OF assms])
qed


lemma fisher_loop_const_grad:
  assumes "\<forall>i\<in>set is. i < length labels \<and> i < rows probs \<and>
             - int (cols probs) \<le> labels ! i \<and> labels ! i < int (cols probs)"
  shows "fisher_loop const_grad (Some ()) probs labels is acc =
           Inr (acc @ replicate (length is) [Some 3])"
  using assms
proof (induction "is" arbitrary: acc)
  case Nil
  then show ?case by simp
next
  case (Cons i "is")
  then have i: "i < length labels" "i < rows probs"
    "- int (cols probs) \<le> labels ! i" "labels ! i < int (cols probs)" by auto
  from index2_succeeds[OF i(2,3,4)] obtain p where p: "index2 probs i (labels ! i) = Inr p" by blast
  from Cons.prems have rest: "\<forall>i\<in>set is. i < length labels \<and> i < rows probs \<and>
             - int (cols probs) \<le> labels ! i \<and> labels ! i < int (cols probs)" by simp
  show ?case using i(1) p Cons.IH[OF rest, of "acc @ [[Some 3]]"]
    by (simp add: getitem_def Let_def const_grad_def cat_def replicate_app_Cons_same)
qed

lemma compute_fisher_const_grad:
  assumes "prompt_learner self = Some ()" and "0 < rows lg"
    and "\<forall>i<rows lg. i < length labels \<and> - int (cols lg) \<le> labels ! i \<and> labels ! i < int (cols lg)"
  shows "compute_fisher_penalty const_grad self lg labels = Inr (Some 9)"
proof -
  let ?gs = "replicate (rows lg) [Some (3::real)]"
  have "\<forall>i\<in>set [0..<rows lg]. i < length labels \<and> i < rows (softmax lg) \<and>
             - int (cols (softmax lg)) \<le> labels ! i \<and> labels ! i < int (cols (softmax lg))"
    using assms(3) by (simp add: softmax_def)
  from fisher_loop_const_grad[OF this, of "[]"]
  have loop: "fisher_loop const_grad (Some ()) (softmax lg) labels [0..<rows lg] [] = Inr ?gs"
    by simp
  define G where "G = \<lparr>rows = rows lg, cols = 1, elem = (\<lambda>i j. ?gs ! i ! j)\<rparr>"
  from assms(2) have hd: "hd ?gs = [Some 3]" by (cases "rows lg") auto
  from assms(2) have st: "stack ?gs = Inr G"
    by (simp add: stack_def hd list_all_iff G_def)
  have rG: "rows G = rows lg" by (simp add: G_def)
  have mp: "map (\<lambda>i. fmul (norm_row (row G i)) (norm_row (row G i))) [0..<rows lg] =
            map (\<lambda>_. Some 9) [0..<rows lg]"
    by (intro map_cong refl) (simp add: G_def row_def norm_row_def)
  have "compute_fisher_penalty const_grad self lg labels =
        Inr (mean (map (\<lambda>i. fmul (norm_row (row G i)) (norm_row (row G i))) [0..<rows lg]))"
    by (simp add: compute_fisher_penalty_def Let_def assms(1) loop st rG)
  also have "\<dots> = Inr (Some 9)"
    using assms(2) by (simp only: mp) (simp add: mean_def fsum_map_const)
  finally show ?thesis .
qed

lemma cmp_loop_no_excess:
  assumes "\<forall>i\<in>set is. i < length labels \<and>
             (\<exists>tp. index2 probs i (labels ! i) = Inr tp \<and>
                   (\<forall>j<cols probs. \<not> fgt (elem probs i j) tp))"
  shows "cmp_loop probs labels is acc = Inr acc"
  using assms
proof (induction "is")
  case Nil
  then show ?case by simp
next
  case (Cons i "is")
  then obtain tp where i: "i < length labels" and ix: "index2 probs i (labels ! i) = Inr tp"
    and d: "\<forall>j<cols probs. \<not> fgt (elem probs i j) tp" by auto
  have f: "filter (\<lambda>j. fgt (elem probs i j) tp \<and> int j \<noteq> labels ! i) [0..<cols probs] = []"
    using d by (auto simp: filter_empty_conv)
  have "cmp_loop probs labels (i # is) acc = cmp_loop probs labels is acc"
    using i by (simp add: getitem_def ix Let_def f)
  also have "\<dots> = Inr acc" using Cons.prems by (intro Cons.IH) simp
  finally show ?case .
qed

lemma softmax_uniform:
  assumes "j < n"
  shows "elem (softmax (lift (ones n n))) i j = Some (softmax_prob (ones n n) i 0)"
proof -
  have "softmax_prob (ones n n) i j = softmax_prob (ones n n) i 0"
    by (simp add: softmax_prob_def ones_def)
  with softmax_lift[of j "ones n n" i] assms show ?thesis by (simp add: ones_def)
qed

lemma compute_cmp_uniform:
  assumes "0 < n" and "length labels = n"
    and "\<forall>l\<in>set labels. - int n \<le> l \<and> l < int n"
  shows "compute_cmp (lift (ones n n)) labels = Inr (Some 0)"
proof -
  let ?probs = "softmax (lift (ones n n))"
  have sh: "rows ?probs = n" "cols ?probs = n" "rows (lift (ones n n)) = n"
    by (simp_all add: softmax_def lift_def ones_def)
  have "\<forall>i\<in>set [0..<n]. i < length labels \<and>
             (\<exists>tp. index2 ?probs i (labels ! i) = Inr tp \<and>
                   (\<forall>j<cols ?probs. \<not> fgt (elem ?probs i j) tp))"
  proof
    fix i assume "i \<in> set [0..<n]"
    then have i: "i < n" by simp
    with assms(2) have "labels ! i \<in> set labels" by simp
    with assms(3) have l: "- int n \<le> labels ! i" "labels ! i < int n" by auto
    let ?j = "nat (if labels ! i < 0 then labels ! i + int n else labels ! i)"
    from l have j: "?j < n" by auto
    have "index2 ?probs i (labels ! i) = Inr (elem ?probs i ?j)"
      using i l by (simp add: index2_def sh Let_def)
    then have "index2 ?probs i (labels ! i) = Inr (Some (softmax_prob (ones n n) i 0))"
      by (simp only: softmax_uniform[OF j])
    moreover have "\<forall>j<cols ?probs. \<not> fgt (elem ?probs i j) (Some (softmax_prob (ones n n) i 0))"
      by (simp add: sh softmax_uniform)
    ultimately show "i < length labels \<and>
             (\<exists>tp. index2 ?probs i (labels ! i) = Inr tp \<and>
                   (\<forall>j<cols ?probs. \<not> fgt (elem ?probs i j) tp))"
      using i assms(2) by blast
  qed
  from cmp_loop_no_excess[OF this, of "Some 0"] assms(1) show ?thesis
    by (simp add: compute_cmp_def Let_def sh)
qed

text \<open>
  C7 as stated fails for the label \<open>-100\<close> with 100 prompts or more: both
  cross-entropies skip the sample (\<open>ignore_index\<close>), and \<open>probs[i, -100]\<close> reads a
  column from the end. With 100 images and 100 prompts whose logits are all 1, a prompt
  learner and gradients available, forward returns a report for the labels
  \<open>[-100, 0, ..., 0]\<close>.
\<close>

theorem forward_accepts_ignored_label:
  "- 100 \<in> set (- 100 # replicate 99 (0::int)) \<and>
   rows (encode_text (clip_model (tuned 100)) ()) = 100 \<and>
   forward const_grad (tuned 100) () () (- 100 # replicate 99 0) =
     Inr \<lparr>loss = Some (ln 100 + 18 / 5), clip_loss = Some (ln 100), fim_penalty = Some 9,
          cmp_penalty = Some 0, logits = lift (ones 100 100)\<rparr>"
proof -
  let ?labels = "- 100 # replicate 99 (0::int)"
  have m: "rows (encode_text (clip_model (tuned 100)) ()) = 100"
    by (simp add: tuned_def CalShift_init_def backbone_def ones_def)
  have len: "length ?labels = 100" by simp
  have va: "list_all (valid_target 100) ?labels"
    by (simp add: valid_target_def ignore_index_def list_all_iff)
  have cl: "contrastive_loss (lift (ones 100 100)) ?labels = Inr (Some (ln (real 100)))"
    by (rule contrastive_loss_uniform[where l = 0, OF len va]) (simp_all add: ignore_index_def)
  have sh: "rows (lift (ones 100 100)) = 100" "cols (lift (ones 100 100)) = 100"
    by (simp_all add: lift_def ones_def)
  have ix: "\<forall>l\<in>set ?labels. - int 100 \<le> l \<and> l < int 100" by simp
  have fim: "compute_fisher_penalty const_grad (tuned 100) (lift (ones 100 100)) ?labels = Inr (Some 9)"
  proof (rule compute_fisher_const_grad)
    show "prompt_learner (tuned 100) = Some ()" by (simp add: tuned_def)
    show "0 < rows (lift (ones 100 100))" by (simp add: sh)
    show "\<forall>i<rows (lift (ones 100 100)). i < length ?labels \<and>
            - int (cols (lift (ones 100 100))) \<le> ?labels ! i \<and>
            ?labels ! i < int (cols (lift (ones 100 100)))"
    proof (intro allI impI)
      fix i assume "i < rows (lift (ones 100 100))"
      then have i: "i < length ?labels" by (simp add: sh)
      then have "?labels ! i \<in> set ?labels" by (rule nth_mem)
      with ix have "- int 100 \<le> ?labels ! i \<and> ?labels ! i < int 100" by blast
      with i show "i < length ?labels \<and>
            - int (cols (lift (ones 100 100))) \<le> ?labels ! i \<and>
            ?labels ! i < int (cols (lift (ones 100 100)))" by (simp only: sh)
    qed
  qed
  have lam: "lambda_fim (tuned 100) = 2 / 5" "lambda_cmp (tuned 100) = 2 / 5"
    by (simp_all add: tuned_def CalShift_init_def)
  have cmp: "compute_cmp (lift (ones 100 100)) ?labels = Inr (Some 0)"
    by (rule compute_cmp_uniform[OF _ len ix]) simp
  have "forward const_grad (tuned 100) () () ?labels =
     Inr \<lparr>loss = Some (ln 100 + 18 / 5), clip_loss = Some (ln 100), fim_penalty = Some 9,
          cmp_penalty = Some 0, logits = lift (ones 100 100)\<rparr>"
    using cl by (simp add: forward_def compute_logits_tuned fim cmp lam)
  with m show ?thesis by simp
qed

subsection \<open>Embeddings of norm zero\<close>

lemma fmul_NaN [simp]: "fmul x NaN = NaN"
  by (cases x) auto

lemma fadd_NaN [simp]: "fadd x NaN = NaN"
  by (cases x) auto

lemma fsub_NaN [simp]: "fsub x NaN = NaN"
  by (cases x) auto

lemma fdiv_zero [simp]: "fdiv x (Some 0) = NaN"
  by (cases x) auto

lemma normalize_zero_norm:
  "norm_row (map Some (row T i)) = Some 0 \<Longrightarrow> elem (normalize T) i k = NaN"
  by (simp add: normalize_def)

lemma fsum_all_NaN: "xs \<noteq> [] \<Longrightarrow> (\<And>x. x \<in> set xs \<Longrightarrow> f x = NaN) \<Longrightarrow> fsum (map f xs) = NaN"
proof -
  assume ne: "xs \<noteq> []" and a: "\<And>x. x \<in> set xs \<Longrightarrow> f x = NaN"
  from ne obtain x where x: "x \<in> set xs" by (cases xs) auto
  with a have "NaN \<in> set (map f xs)" by (force simp: image_iff)
  then show ?thesis by (simp only: fsum_NaN_iff)
qed

lemma compute_logits_InrD:
  assumes "compute_logits cm images text_tokens = Inr lg"
  shows "cols (encode_image cm images) = cols (encode_text cm text_tokens)"
    and "lg = scale \<lparr>rows = rows (encode_image cm images), cols = rows (encode_text cm text_tokens),
               elem = (\<lambda>i j. fsum (map (\<lambda>k. fmul (elem (normalize (encode_image cm images)) i k)
                                                 (elem (normalize (encode_text cm text_tokens)) j k))
                                    [0..<cols (encode_image cm images)]))\<rparr>
              (Some (exp (logit_scale cm)))"
  using assms
  by (auto simp: compute_logits_def Let_def matmul_def normalize_def transpose2_def
      split: sum.splits if_splits)

lemma logits_zero_norm_image:
  assumes "compute_logits cm images text_tokens = Inr lg"
    and "0 < cols (encode_image cm images)"
    and "norm_row (map Some (row (encode_image cm images) i)) = Some 0"
  shows "elem lg i j = NaN"
proof -
  have "fsum (map (\<lambda>k. fmul (elem (normalize (encode_image cm images)) i k)
                         (elem (normalize (encode_text cm text_tokens)) j k))
            [0..<cols (encode_image cm images)]) = NaN"
    using assms(2) by (intro fsum_all_NaN) (simp_all add: normalize_zero_norm[OF assms(3)])
  then show ?thesis by (simp add: compute_logits_InrD(2)[OF assms(1)] scale_def)
qed

lemma logits_zero_norm_text:
  assumes "compute_logits cm images text_tokens = Inr lg"
    and "0 < cols (encode_image cm images)"
    and "norm_row (map Some (row (encode_text cm text_tokens) j)) = Some 0"
  shows "elem lg i j = NaN"
proof -
  have "fsum (map (\<lambda>k. fmul (elem (normalize (encode_image cm images)) i k)
                         (elem (normalize (encode_text cm text_tokens)) j k))
            [0..<cols (encode_image cm images)]) = NaN"
    using assms(2) by (intro fsum_all_NaN) (simp_all add: normalize_zero_norm[OF assms(3)])
  then show ?thesis by (simp add: compute_logits_InrD(2)[OF assms(1)] scale_def)
qed

lemma log_softmax_row_NaN:
  assumes "NaN \<in> set xs" and "k < length xs"
  shows "log_softmax_row xs ! k = NaN"
proof -
  from assms(1) have "NaN \<in> set (map fexp xs)" by (force simp: image_iff)
  then have "fsum (map fexp xs) = NaN" by (simp only: fsum_NaN_iff)
  then show ?thesis using assms(2) by (simp add: log_softmax_row_def)
qed

lemma cross_entropy_NaN:
  assumes "cross_entropy T y = Inr v" and "\<And>i. i < rows T \<Longrightarrow> NaN \<in> set (row T i)"
  shows "v = NaN"
proof -
  let ?kept = "filter (\<lambda>i. y ! i \<noteq> ignore_index) [0..<rows T]"
  let ?f = "\<lambda>i. fneg (log_softmax_row (row T i) ! nat (y ! i))"
  from assms(1) have len: "rows T = length y" and va: "list_all (valid_target (cols T)) y"
    and v: "v = fdiv (fsum (map ?f ?kept)) (Some (real (length ?kept)))"
    by (auto simp: cross_entropy_def Let_def split: if_splits)
  show ?thesis
  proof (cases "?kept = []")
    case True
    then show ?thesis by (simp add: v)
  next
    case False
    have "?f i = NaN" if "i \<in> set ?kept" for i
    proof -
      from that have i: "i < rows T" "y ! i \<noteq> ignore_index" by auto
      with va len have "0 \<le> y ! i" "y ! i < int (cols T)"
        by (auto simp: list_all_length valid_target_def)
      then have "nat (y ! i) < length (row T i)" by (simp add: row_def)
      from log_softmax_row_NaN[OF assms(2)[OF i(1)] this] show ?thesis by simp
    qed
    with False have "fsum (map ?f ?kept) = NaN" by (intro fsum_all_NaN)
    then show ?thesis by (simp add: v)
  qed
qed


text \<open>
  C6, as amended. No step of forward fails because an embedding has Euclidean norm zero:
  the normalization divides by the norm unguarded. When the embeddings have a positive
  dimension and image \<open>i\<close> or prompt \<open>j\<close> has norm zero, every report forward returns
  has NaN as its contrastive loss and as its total loss.
\<close>

theorem zero_norm_gives_nan_losses:
  assumes r: "forward ag self images text_tokens labels = Inr r"
    and d: "0 < cols (encode_image (clip_model self) images)"
    and z: "(i < rows (encode_image (clip_model self) images) \<and>
             norm_row (map Some (row (encode_image (clip_model self) images) i)) = Some 0) \<or>
            (j < rows (encode_text (clip_model self) text_tokens) \<and>
             norm_row (map Some (row (encode_text (clip_model self) text_tokens) j)) = Some 0)"
  shows "clip_loss r = NaN \<and> loss r = NaN"
proof -
  from forward_InrD[OF r] obtain lg cl fim cmp where
    lg: "compute_logits (clip_model self) images text_tokens = Inr lg" and
    cl: "contrastive_loss lg labels = Inr cl" and
    rr: "r = \<lparr>loss = fadd (fadd cl (fmul (Some (lambda_fim self)) fim))
                              (fmul (Some (lambda_cmp self)) cmp),
                clip_loss = cl, fim_penalty = fim, cmp_penalty = cmp, logits = lg\<rparr>"
    by blast
  note sh = compute_logits_shape[OF lg]
  from cl obtain a b where a: "cross_entropy lg labels = Inr a"
    and b: "cross_entropy (transpose2 lg) labels = Inr b"
    and clv: "cl = fdiv (fadd a b) (Some 2)"
    by (auto simp: contrastive_loss_def split: sum.splits)
  from z have "a = NaN \<or> b = NaN"
  proof
    assume zi: "i < rows (encode_image (clip_model self) images) \<and>
             norm_row (map Some (row (encode_image (clip_model self) images) i)) = Some 0"
    have "NaN \<in> set (row (transpose2 lg) i')" for i'
    proof -
      have "elem (transpose2 lg) i' i = NaN"
        using logits_zero_norm_image[OF lg d, of i i'] zi by (simp add: transpose2_def)
      moreover have "i < cols (transpose2 lg)" using zi sh by (simp add: transpose2_def)
      ultimately show ?thesis by (force simp: row_def image_iff)
    qed
    from cross_entropy_NaN[OF b this] show ?thesis by simp
  next
    assume zj: "j < rows (encode_text (clip_model self) text_tokens) \<and>
             norm_row (map Some (row (encode_text (clip_model self) text_tokens) j)) = Some 0"
    have "NaN \<in> set (row lg i')" for i'
    proof -
      have "elem lg i' j = NaN"
        using logits_zero_norm_text[OF lg d, of j i'] zj by simp
      moreover have "j < cols lg" using zj sh by simp
      ultimately show ?thesis by (force simp: row_def image_iff)
    qed
    from cross_entropy_NaN[OF a this] show ?thesis by simp
  qed
  then have "cl = NaN" by (auto simp: clv)
  then show ?thesis by (simp add: rr)
qed

lemma forward_zero_tuned:
  "forward nan_grad zero_tuned () () [0] =
     Inr \<lparr>loss = NaN, clip_loss = NaN, fim_penalty = NaN, cmp_penalty = Some 0,
          logits = \<lparr>rows = 1, cols = 1, elem = (\<lambda>i j. NaN)\<rparr>\<rparr>"
  by (simp add: eval_defs zero_tuned_def zero_backbone_def nan_grad_def)

text \<open>
  C6 as stated fails: with one image whose embedding is the zero vector, forward returns a
  report, and its losses are NaN.
\<close>

theorem forward_zero_norm_returns_nan:
  "norm_row (map Some (row (encode_image (clip_model zero_tuned) ()) 0)) = Some 0 \<and>
   forward nan_grad zero_tuned () () [0] =
     Inr \<lparr>loss = NaN, clip_loss = NaN, fim_penalty = NaN, cmp_penalty = Some 0,
          logits = \<lparr>rows = 1, cols = 1, elem = (\<lambda>i j. NaN)\<rparr>\<rparr>"
  by (simp add: eval_defs zero_tuned_def zero_backbone_def nan_grad_def)

theorem zero_norm_gives_nan_losses_witness:
  "0 < cols (encode_image (clip_model zero_tuned) ()) \<and>
   0 < rows (encode_image (clip_model zero_tuned) ()) \<and>
   norm_row (map Some (row (encode_image (clip_model zero_tuned) ()) 0)) = Some 0 \<and>
   clip_loss (projr (forward nan_grad zero_tuned () () [0])) = NaN \<and>
   loss (projr (forward nan_grad zero_tuned () () [0])) = NaN"
proof -
  have d: "0 < cols (encode_image (clip_model zero_tuned) ())"
    and n: "0 < rows (encode_image (clip_model zero_tuned) ())"
    and z: "norm_row (map Some (row (encode_image (clip_model zero_tuned) ()) 0)) = Some 0"
    by (simp_all add: zero_tuned_def zero_backbone_def CalShift_init_def row_def norm_row_def)
  from n z have "(0 < rows (encode_image (clip_model zero_tuned) ()) \<and>
             norm_row (map Some (row (encode_image (clip_model zero_tuned) ()) 0)) = Some 0) \<or>
            (0 < rows (encode_text (clip_model zero_tuned) ()) \<and>
             norm_row (map Some (row (encode_text (clip_model zero_tuned) ()) 0)) = Some 0)" by simp
  from zero_norm_gives_nan_losses [OF forward_zero_tuned d this] d n z
  show ?thesis by (simp add: forward_zero_tuned)
qed

subsection \<open>Permutation invariance of the contrastive loss\<close>

lemma position_props:
  "k \<in> set p \<Longrightarrow> position p k < length p \<and> p ! position p k = k"
  unfolding position_def by (induction p) auto

lemma perm_upt_props:
  assumes "mset p = mset [0..<n]"
  shows "length p = n" and "set p = {0..<n}"
proof -
  from assms have "size (mset p) = size (mset [0..<n])" by simp
  then show "length p = n" by simp
  from assms have "set p = set [0..<n]" by (rule mset_eq_setD)
  then show "set p = {0..<n}" by simp
qed

lemma relabel_props:
  assumes "mset p = mset [0..<n]"
  shows "valid_target n (relabel p l) \<longleftrightarrow> valid_target n l"
    and "relabel p l = ignore_index \<longleftrightarrow> l = ignore_index"
    and "0 \<le> l \<Longrightarrow> l < int n \<Longrightarrow> p ! nat (relabel p l) = nat l"
proof -
  note pp = perm_upt_props[OF assms]
  have in_p: "nat l \<in> set p" if "0 \<le> l" "l < int n"
    using that pp by auto
  show "valid_target n (relabel p l) \<longleftrightarrow> valid_target n l"
    using position_props[OF in_p] pp(1)
    by (auto simp: relabel_def valid_target_def ignore_index_def)
  show "relabel p l = ignore_index \<longleftrightarrow> l = ignore_index"
    by (auto simp: relabel_def ignore_index_def)
  show "p ! nat (relabel p l) = nat l" if "0 \<le> l" "l < int n"
    using position_props[OF in_p[OF that]] that pp(1) by (simp add: relabel_def)
qed

lemma mset_map_eq: "mset xs = mset ys \<Longrightarrow> mset (map f xs) = mset (map f ys)"
  by (simp only: mset_map)

lemma mset_filter_eq: "mset xs = mset ys \<Longrightarrow> mset (filter P xs) = mset (filter P ys)"
  by (simp only: mset_filter)

lemma log_softmax_row_nth:
  "k < length xs \<Longrightarrow> log_softmax_row xs ! k = fsub (xs ! k) (flog (fsum (map fexp xs)))"
  by (simp add: log_softmax_row_def)

lemma row_permute2:
  assumes "length p = cols T"
  shows "row (permute2 p T) i = map (elem T (p ! i)) p"
proof -
  have "row (permute2 p T) i = map (\<lambda>j. elem T (p ! i) (p ! j)) [0..<length p]"
    by (simp add: row_def permute2_def assms)
  also have "\<dots> = map (elem T (p ! i)) p" by (rule map_upt_nth)
  finally show ?thesis .
qed

lemma transpose2_permute2: "transpose2 (permute2 p T) = permute2 p (transpose2 T)"
  by (simp add: transpose2_def permute2_def)

lemma cross_entropy_permute:
  assumes p: "mset p = mset [0..<n]" and sh: "rows T = n" "cols T = n" and len: "length y = n"
  shows "cross_entropy (permute2 p T) (permute_labels p y) = cross_entropy T y"
proof -
  note pp = perm_upt_props[OF p]
  note rl = relabel_props[OF p]
  let ?y' = "permute_labels p y"
  let ?T' = "permute2 p T"
  have ly': "length ?y' = n" by (simp add: permute_labels_def pp)
  have sh': "rows ?T' = n" "cols ?T' = n" by (simp_all add: permute2_def sh)
  have y'_nth: "?y' ! i = relabel p (y ! (p ! i))" if "i < n" for i
    using that by (simp add: permute_labels_def pp)
  have p_lt: "p ! i < n" if "i < n" for i
    using that pp nth_mem[of i p] by auto
  have valid_iff: "list_all (valid_target n) ?y' \<longleftrightarrow> list_all (valid_target n) y"
  proof -
    have "list_all (valid_target n) ?y' \<longleftrightarrow> (\<forall>i\<in>set p. valid_target n (y ! i))"
      by (simp add: permute_labels_def list_all_iff rl(1))
    also have "\<dots> \<longleftrightarrow> (\<forall>i<n. valid_target n (y ! i))" by (auto simp: pp)
    also have "\<dots> \<longleftrightarrow> list_all (valid_target n) y" by (simp add: list_all_length len)
    finally show ?thesis .
  qed
  show ?thesis
  proof (cases "list_all (valid_target n) y")
    case False
    with valid_iff show ?thesis by (simp add: cross_entropy_def sh sh' ly' len)
  next
    case True
    let ?Q = "\<lambda>i. y ! i \<noteq> ignore_index"
    let ?G = "\<lambda>i. fneg (fsub (elem T i (nat (y ! i))) (flog (fsum (map fexp (row T i)))))"
    let ?kept = "filter ?Q [0..<n]"
    let ?kept' = "filter (\<lambda>i. ?y' ! i \<noteq> ignore_index) [0..<n]"
    have lab: "0 \<le> y ! i \<and> y ! i < int n" if "i < n" "?Q i" for i
      using True that by (auto simp: list_all_length len valid_target_def)
    have orig: "map (\<lambda>i. fneg (log_softmax_row (row T i) ! nat (y ! i))) ?kept = map ?G ?kept"
    proof (intro map_cong refl)
      fix i assume "i \<in> set ?kept"
      then have i: "i < n" "?Q i" by auto
      from lab[OF i] have k: "nat (y ! i) < length (row T i)" by (auto simp: row_def sh)
      show "fneg (log_softmax_row (row T i) ! nat (y ! i)) = ?G i"
        using k by (simp add: log_softmax_row_nth) (simp add: row_def sh)
    qed
    have kept'_eq: "?kept' = filter (\<lambda>i. ?Q (p ! i)) [0..<n]"
      by (intro filter_cong refl) (simp add: y'_nth rl(2))
    have perm: "map (\<lambda>i. fneg (log_softmax_row (row ?T' i) ! nat (?y' ! i))) ?kept' =
                map (\<lambda>i. ?G (p ! i)) ?kept'"
    proof (intro map_cong refl)
      fix i assume "i \<in> set ?kept'"
      then have i: "i < n" "?Q (p ! i)" by (auto simp: y'_nth rl(2))
      from lab[OF p_lt[OF i(1)] i(2)] have l: "0 \<le> y ! (p ! i)" "y ! (p ! i) < int n" by auto
      let ?k = "nat (?y' ! i)"
      from rl(3)[OF l] have pk: "p ! ?k = nat (y ! (p ! i))" by (simp add: y'_nth[OF i(1)])
      from l have "valid_target n (y ! (p ! i))" by (simp add: valid_target_def)
      then have "valid_target n (?y' ! i)" by (simp only: y'_nth[OF i(1)] rl(1))
      moreover have "?y' ! i \<noteq> ignore_index" using i(2) by (simp add: y'_nth[OF i(1)] rl(2))
      ultimately have k: "?k < n" by (auto simp: valid_target_def)
      have r: "row ?T' i = map (elem T (p ! i)) p"
        by (rule row_permute2) (simp add: pp sh)
      have "mset (map fexp (map (elem T (p ! i)) p)) = mset (map fexp (row T (p ! i)))"
        unfolding row_def sh by (intro mset_map_eq p)
      then have z: "fsum (map fexp (map (elem T (p ! i)) p)) = fsum (map fexp (row T (p ! i)))"
        by (rule fsum_mset)
      have "log_softmax_row (map (elem T (p ! i)) p) ! ?k =
              fsub (map (elem T (p ! i)) p ! ?k) (flog (fsum (map fexp (map (elem T (p ! i)) p))))"
        using k by (intro log_softmax_row_nth) (simp add: pp)
      also have "\<dots> = fsub (map (elem T (p ! i)) p ! ?k) (flog (fsum (map fexp (row T (p ! i)))))"
        by (simp only: z)
      also have "map (elem T (p ! i)) p ! ?k = elem T (p ! i) (nat (y ! (p ! i)))"
        using k by (simp add: pp pk)
      finally show "fneg (log_softmax_row (row ?T' i) ! nat (?y' ! i)) = ?G (p ! i)"
        by (simp only: r)
    qed
    have "map (\<lambda>i. ?G (p ! i)) ?kept' = map ?G (map ((!) p) ?kept')" by simp
    also have "map ((!) p) ?kept' = filter ?Q (map ((!) p) [0..<n])"
      by (simp add: kept'_eq filter_map comp_def)
    also have "map ((!) p) [0..<n] = p" using pp(1) map_nth[of p] by simp
    finally have perm': "map (\<lambda>i. ?G (p ! i)) ?kept' = map ?G (filter ?Q p)" .
    have ms: "mset (filter ?Q p) = mset ?kept" by (intro mset_filter_eq p)
    then have "mset (map ?G (filter ?Q p)) = mset (map ?G ?kept)" by (rule mset_map_eq)
    then have sum_eq: "fsum (map ?G (filter ?Q p)) = fsum (map ?G ?kept)" by (rule fsum_mset)
    have "length ?kept' = length (map ((!) p) ?kept')" by simp
    also have "\<dots> = length (filter ?Q p)"
      using \<open>map ((!) p) ?kept' = filter ?Q (map ((!) p) [0..<n])\<close> \<open>map ((!) p) [0..<n] = p\<close>
      by simp
    also have "\<dots> = length ?kept" using ms by (metis size_mset)
    finally have len_eq: "length ?kept' = length ?kept" .
    have "cross_entropy ?T' ?y' =
          Inr (fdiv (fsum (map (\<lambda>i. fneg (log_softmax_row (row ?T' i) ! nat (?y' ! i))) ?kept'))
                    (Some (real (length ?kept'))))"
      using True valid_iff by (simp add: cross_entropy_def sh' ly' Let_def)
    also have "\<dots> = Inr (fdiv (fsum (map ?G ?kept)) (Some (real (length ?kept))))"
      by (simp only: perm perm' sum_eq len_eq)
    also have "\<dots> = cross_entropy T y"
      using True by (simp add: cross_entropy_def sh len Let_def orig)
    finally show ?thesis .
  qed
qed

text \<open>
  C5. For a square logits matrix and a label vector of its size, permuting the rows and the
  columns by the same permutation and the labels correspondingly leaves the contrastive
  loss unchanged: the same value, or the same error when a label is not valid.
\<close>

theorem contrastive_loss_permutation_invariant:
  assumes "mset p = mset [0..<n]" and "rows lg = n" and "cols lg = n" and "length labels = n"
  shows "contrastive_loss (permute2 p lg) (permute_labels p labels) = contrastive_loss lg labels"
proof -
  have t: "rows (transpose2 lg) = n" "cols (transpose2 lg) = n"
    using assms by (simp_all add: transpose2_def)
  show ?thesis
    unfolding contrastive_loss_def transpose2_permute2
      cross_entropy_permute[OF assms] cross_entropy_permute[OF assms(1) t assms(4)]
    by (rule refl)
qed


theorem contrastive_loss_permutation_invariant_witness:
  "mset [1, 0] = mset [0..<2] \<and> rows (lift mat2) = 2 \<and> cols (lift mat2) = 2 \<and>
   permute_labels [1, 0] [0, 0] = [1, 1] \<and>
   elem (permute2 [1, 0] (lift mat2)) 0 1 = Some 2 \<and> elem (lift mat2) 0 1 = Some 1 \<and>
   contrastive_loss (permute2 [1, 0] (lift mat2)) [1, 1] = contrastive_loss (lift mat2) [0, 0]"
proof -
  have h: "mset [1, 0] = mset [0..<2]" "rows (lift mat2) = 2" "cols (lift mat2) = 2"
    "length [0, 0 :: int] = 2"
    by (simp_all add: upt_2 lift_def mat2_def)
  have l: "permute_labels [1, 0] [0, 0] = [1, 1]"
    by (simp add: permute_labels_def relabel_def position_def)
  have e: "elem (permute2 [1, 0] (lift mat2)) 0 1 = Some 2" "elem (lift mat2) 0 1 = Some 1"
    by (simp_all add: permute2_def lift_def mat2_def)
  from contrastive_loss_permutation_invariant [OF h] h(1,2,3) l e show ?thesis by simp
qed

end
